theory Spec2Isabelle
  imports Main
begin

section \<open>The game state (lives, score, streak)\<close>

text \<open>
  The class \<open>GameState\<close> with the streak counter: three numeric fields \<open>_lives\<close>,
  \<open>_score\<close> and \<open>_catsReturnedinARow\<close> (an Isabelle name cannot start with an
  underscore, so the fields carry the names of their getters). The numbers of the
  source are JavaScript numbers; the model takes them as integers, which is what the
  callers pass.
\<close>

record GameState =
  lives :: int
  score :: int
  catsReturnedinARow :: int

text \<open>The field initialisers of the class: \<open>new GameState()\<close>.\<close>

definition new_GameState :: GameState where
  "new_GameState = \<lparr> lives = 3, score = 0, catsReturnedinARow = 0 \<rparr>"

definition gainLife :: "GameState \<Rightarrow> GameState" where
  "gainLife s = s\<lparr> lives := lives s + 1 \<rparr>"

text \<open>The setter of \<open>catsReturnedinARow\<close>: more than 5 in a row adds a life.\<close>

definition set_catsReturnedinARow :: "int \<Rightarrow> GameState \<Rightarrow> GameState" where
  "set_catsReturnedinARow newValue s =
     (if newValue > 5 then (gainLife s)\<lparr> catsReturnedinARow := 0 \<rparr>
      else s\<lparr> catsReturnedinARow := newValue \<rparr>)"

definition loseLife :: "GameState \<Rightarrow> GameState" where
  "loseLife s = (let s1 = set_catsReturnedinARow 0 s in s1\<lparr> lives := lives s1 - 1 \<rparr>)"

text \<open>
  \<open>this.catsReturnedinARow++\<close> reads the getter and calls the setter with the value
  plus one; then the score grows by the amount.
\<close>

definition increaseScore :: "int \<Rightarrow> GameState \<Rightarrow> GameState" where
  "increaseScore amount s =
     (let s1 = set_catsReturnedinARow (catsReturnedinARow s + 1) s
      in s1\<lparr> score := score s1 + amount \<rparr>)"

text \<open>A sequence of calls on one game state, run from left to right.\<close>

datatype state_op = IncreaseScore int | LoseLife | GainLife

fun apply_state_op :: "state_op \<Rightarrow> GameState \<Rightarrow> GameState" where
  "apply_state_op (IncreaseScore amount) s = increaseScore amount s"
| "apply_state_op LoseLife s = loseLife s"
| "apply_state_op GainLife s = gainLife s"

fun apply_state_ops :: "state_op list \<Rightarrow> GameState \<Rightarrow> GameState" where
  "apply_state_ops [] s = s"
| "apply_state_ops (x # xs) s = apply_state_ops xs (apply_state_op x s)"

fun op_amount_ok :: "state_op \<Rightarrow> bool" where
  "op_amount_ok (IncreaseScore amount) = (0 \<le> amount)"
| "op_amount_ok LoseLife = True"
| "op_amount_ok GainLife = True"

subsection \<open>The earlier game state, without a streak\<close>

text \<open>
  The file \<open>store.ts\<close> holds a \<open>GameState\<close> of two fields only; it has no streak
  counter and no \<open>gainLife\<close>.
\<close>

record GameState0 =
  lives0 :: int
  score0 :: int

definition new_GameState0 :: GameState0 where
  "new_GameState0 = \<lparr> lives0 = 3, score0 = 0 \<rparr>"

definition loseLife0 :: "GameState0 \<Rightarrow> GameState0" where
  "loseLife0 s = s\<lparr> lives0 := lives0 s - 1 \<rparr>"

definition increaseScore0 :: "int \<Rightarrow> GameState0 \<Rightarrow> GameState0" where
  "increaseScore0 amount s = s\<lparr> score0 := score0 s + amount \<rparr>"

section \<open>Entities, hooks and the world\<close>

text \<open>
  The class \<open>Game\<close> owns an array of entity objects, a counter for identifiers, the
  game state, and registers key listeners on the document. Entities are objects shared
  by reference between the array, its copies and the hooks, so the model keeps them in a
  store: a reference is an index into \<open>heap\<close>, \<open>new Entity()\<close> appends a cell, and
  the arrays hold references.
\<close>

type_synonym ref = nat

text \<open>
  The arguments of \<open>new HitboxComponent(x, y, width, height, {tags, blocks})\<close>, in
  world units.
\<close>

record Hitbox =
  box_x :: int
  box_y :: int
  box_width :: int
  box_height :: int
  tags :: "string list"
  blocks :: "string list"

text \<open>
  Modelled from the spec: the class \<open>Entity\<close> (its file is not among the sources).
  An entity has an identifier, assigned by the world and absent until then, a \<open>deleted\<close>
  flag that starts false, and its attached components: the hitbox, if it has one, and
  the class names of the other components in the order of attachment.
\<close>

record Entity =
  entityId :: "nat option"
  deleted :: bool
  hitbox :: "Hitbox option"
  components :: "string list"

text \<open>
  What the world calls on an entity or on a hitbox, in the order of the calls, and each
  execution of the assignment \<open>e.entityId = this.count\<close>.
\<close>

datatype event =
    Spawned ref
  | Assigned ref nat
  | Updated ref
  | Destroyed ref
  | Collided ref ref
  | LateUpdated ref

text \<open>
  The fields of \<open>Game\<close>. \<open>listeners\<close> holds, for every closure that \<open>update\<close> has
  registered for \<open>keyup\<close>, the current value of the variable \<open>breakCircuit\<close> that the
  closure captured. \<open>trace\<close> records the events above and is read by no operation.
\<close>

record Game =
  entities :: "ref list"
  count :: nat
  state :: GameState
  heap :: "Entity list"
  listeners :: "bool list"
  trace :: "event list"

text \<open>
  The field initialisers of \<open>Game\<close>: no entity, the counter at 1, a fresh game state.
\<close>

definition new_Game :: Game where
  "new_Game = \<lparr> entities = [], count = 1, state = new_GameState, heap = [],
                 listeners = [], trace = [] \<rparr>"

text \<open>
  What a component hook does to the world through \<open>EntityContext\<close> and the entities it
  reaches: it sets the \<open>deleted\<close> flag of an entity, builds a new entity and passes it
  to \<open>addEntity\<close>, moves or resizes a hitbox, or calls an operation of the game state.
\<close>

datatype action =
    MarkDeleted ref
  | AddNew "Hitbox option" "string list"
  | SetHitbox ref Hitbox
  | OnState state_op

text \<open>
  The methods of \<open>Entity\<close>, \<open>Component\<close> and \<open>HitboxComponent\<close> that the world
  calls are not among the sources; they are parameters. Each hook reads the world at the
  moment of the call and answers with the actions it performs, in order. \<open>onCollide a b\<close>
  is \<open>collidedWith\<close> on the hitbox of \<open>a\<close> with the hitbox of \<open>b\<close>.
\<close>

record hooks =
  onSpawn :: "ref \<Rightarrow> Game \<Rightarrow> action list"
  onUpdate :: "ref \<Rightarrow> Game \<Rightarrow> action list"
  onLateUpdate :: "ref \<Rightarrow> Game \<Rightarrow> action list"
  onDestroy :: "ref \<Rightarrow> Game \<Rightarrow> action list"
  onCollide :: "ref \<Rightarrow> ref \<Rightarrow> Game \<Rightarrow> action list"
  intersects :: "Hitbox \<Rightarrow> Hitbox \<Rightarrow> bool"

text \<open>
  A call that does not return: the call stack is exhausted (a hook that adds an entity
  whose spawn hook adds an entity, and so on), or a hitbox is looked up on an entity
  that has none.
\<close>

datatype error = StackExhausted | MissingHitbox

definition log :: "event \<Rightarrow> Game \<Rightarrow> Game" where
  "log ev w = w\<lparr> trace := trace w @ [ev] \<rparr>"

text \<open>
  Reading an entity through a reference. Every reference the program holds is to an
  entity that was built, that is, below the length of the store; for any other number
  the flag reads false and there is no hitbox.

  Modelled from the spec: \<open>getHitboxFrom\<close> of \<open>utils\<close> (not among the sources)
  looks up the hitbox component of an entity; a collision pass that meets an entity
  without one fails.
\<close>

definition is_deleted :: "Game \<Rightarrow> ref \<Rightarrow> bool" where
  "is_deleted w e = (e < length (heap w) \<and> deleted (heap w ! e))"

definition getHitboxFrom :: "Game \<Rightarrow> ref \<Rightarrow> Hitbox option" where
  "getHitboxFrom w e = (if e < length (heap w) then hitbox (heap w ! e) else None)"

definition map_entity :: "ref \<Rightarrow> (Entity \<Rightarrow> Entity) \<Rightarrow> Game \<Rightarrow> Game" where
  "map_entity e f w = w\<lparr> heap := (heap w)[e := f (heap w ! e)] \<rparr>"

text \<open>\<open>new Entity().attach(...)\<close>: a new cell, with no identifier and not deleted.\<close>

definition new_Entity :: "Hitbox option \<Rightarrow> string list \<Rightarrow> Game \<Rightarrow> ref \<times> Game" where
  "new_Entity b cs w =
     (length (heap w),
      w\<lparr> heap := heap w @ [\<lparr> entityId = None, deleted = False, hitbox = b, components = cs \<rparr>] \<rparr>)"

text \<open>
  Running the actions of a hook, and \<open>Game.addEntity\<close>, which a hook may call and which
  calls the spawn hook in turn. The first argument is the depth of call stack that is
  left; \<open>addEntity\<close> takes one level for the spawn hook it runs.

  \<open>addEntity(e)\<close> is, in this order: \<open>e.spawn(this)\<close>, \<open>e.entityId = this.count\<close>,
  \<open>this.count++\<close>, \<open>this.entities.push(e)\<close>.
\<close>

fun exec :: "nat \<Rightarrow> hooks \<Rightarrow> action list \<Rightarrow> Game \<Rightarrow> error + Game"
  and addEntity :: "nat \<Rightarrow> hooks \<Rightarrow> ref \<Rightarrow> Game \<Rightarrow> error + Game" where
  "exec n h [] w = Inr w"
| "exec n h (MarkDeleted e # acts) w =
     exec n h acts (map_entity e (\<lambda>ent. ent\<lparr> deleted := True \<rparr>) w)"
| "exec n h (SetHitbox e b # acts) w =
     exec n h acts (map_entity e (\<lambda>ent. ent\<lparr> hitbox := Some b \<rparr>) w)"
| "exec n h (OnState f # acts) w =
     exec n h acts (w\<lparr> state := apply_state_op f (state w) \<rparr>)"
| "exec n h (AddNew b cs # acts) w =
     (case addEntity n h (fst (new_Entity b cs w)) (snd (new_Entity b cs w)) of
        Inl err \<Rightarrow> Inl err
      | Inr w1 \<Rightarrow> exec n h acts w1)"
| "addEntity 0 h e w = Inl StackExhausted"
| "addEntity (Suc n) h e w =
     (case exec n h (onSpawn h e (log (Spawned e) w)) (log (Spawned e) w) of
        Inl err \<Rightarrow> Inl err
      | Inr w1 \<Rightarrow>
          Inr ((map_entity e (\<lambda>ent. ent\<lparr> entityId := Some (count w1) \<rparr>)
                  (log (Assigned e (count w1)) w1))
                \<lparr> count := count w1 + 1, entities := entities w1 @ [e] \<rparr>))"

text \<open>The calls of the world into an entity, each followed by what its hook does.\<close>

definition call_update :: "nat \<Rightarrow> hooks \<Rightarrow> ref \<Rightarrow> Game \<Rightarrow> error + Game" where
  "call_update n h e w = exec n h (onUpdate h e (log (Updated e) w)) (log (Updated e) w)"

definition call_lateUpdate :: "nat \<Rightarrow> hooks \<Rightarrow> ref \<Rightarrow> Game \<Rightarrow> error + Game" where
  "call_lateUpdate n h e w =
     exec n h (onLateUpdate h e (log (LateUpdated e) w)) (log (LateUpdated e) w)"

definition call_destroy :: "nat \<Rightarrow> hooks \<Rightarrow> ref \<Rightarrow> Game \<Rightarrow> error + Game" where
  "call_destroy n h e w = exec n h (onDestroy h e (log (Destroyed e) w)) (log (Destroyed e) w)"

definition collidedWith :: "nat \<Rightarrow> hooks \<Rightarrow> ref \<Rightarrow> ref \<Rightarrow> Game \<Rightarrow> error + Game" where
  "collidedWith n h a b w =
     exec n h (onCollide h a b (log (Collided a b) w)) (log (Collided a b) w)"

text \<open>
  \<open>xs.forEach(f)\<close> and the \<open>for\<close> loops: the body runs on each element in turn and an
  error ends the loop.
\<close>

fun for_each :: "'a list \<Rightarrow> ('a \<Rightarrow> Game \<Rightarrow> error + Game) \<Rightarrow> Game \<Rightarrow> error + Game" where
  "for_each [] f w = Inr w"
| "for_each (a # as) f w = (case f a w of Inl err \<Rightarrow> Inl err | Inr w1 \<Rightarrow> for_each as f w1)"

subsection \<open>Collision detection\<close>

text \<open>
  The body of the inner loop of \<open>detectCollisions\<close> for the entities \<open>e1\<close> and \<open>e2\<close>:
  nothing if \<open>e2\<close> is deleted; otherwise both hitboxes are looked up and, if they
  intersect, each is notified of the other, \<open>e1\<close> first.
\<close>

definition collide_pair :: "nat \<Rightarrow> hooks \<Rightarrow> ref \<Rightarrow> ref \<Rightarrow> Game \<Rightarrow> error + Game" where
  "collide_pair n h e1 e2 w =
     (if is_deleted w e2 then Inr w
      else
        (case (getHitboxFrom w e1, getHitboxFrom w e2) of
           (Some e1Hitbox, Some e2Hitbox) \<Rightarrow>
             if intersects h e1Hitbox e2Hitbox then
               (case collidedWith n h e1 e2 w of
                  Inl err \<Rightarrow> Inl err
                | Inr w1 \<Rightarrow> collidedWith n h e2 e1 w1)
             else Inr w
         | _ \<Rightarrow> Inl MissingHitbox))"

text \<open>
  The body of the outer loop at index \<open>i\<close> of the copy \<open>collidingEntities\<close>: nothing if
  the entity at \<open>i\<close> is deleted when the loop reaches it; otherwise the inner loop over
  the indices after \<open>i\<close>.
\<close>

definition collide_row :: "nat \<Rightarrow> hooks \<Rightarrow> ref list \<Rightarrow> nat \<Rightarrow> Game \<Rightarrow> error + Game" where
  "collide_row n h collidingEntities i w =
     (if is_deleted w (collidingEntities ! i) then Inr w
      else for_each [i + 1 ..< length collidingEntities]
             (\<lambda>j. collide_pair n h (collidingEntities ! i) (collidingEntities ! j)) w)"

definition detectCollisions :: "nat \<Rightarrow> hooks \<Rightarrow> Game \<Rightarrow> error + Game" where
  "detectCollisions n h w =
     for_each [0 ..< length (entities w)] (collide_row n h (entities w)) w"

subsection \<open>The frame\<close>

definition isGameOver :: "Game \<Rightarrow> bool" where
  "isGameOver w = (lives (state w) \<le> 0)"

text \<open>The passes of \<open>update\<close> after the game-over check, in the order of the source.\<close>

definition update_pass :: "nat \<Rightarrow> hooks \<Rightarrow> Game \<Rightarrow> error + Game" where
  "update_pass n h w = for_each (entities w) (call_update n h) w"

definition destroy_pass :: "nat \<Rightarrow> hooks \<Rightarrow> Game \<Rightarrow> error + Game" where
  "destroy_pass n h w = for_each (filter (is_deleted w) (entities w)) (call_destroy n h) w"

definition compact :: "Game \<Rightarrow> Game" where
  "compact w = w\<lparr> entities := filter (\<lambda>e. \<not> is_deleted w e) (entities w) \<rparr>"

definition lateUpdate_pass :: "nat \<Rightarrow> hooks \<Rightarrow> Game \<Rightarrow> error + Game" where
  "lateUpdate_pass n h w = for_each (entities w) (call_lateUpdate n h) w"

text \<open>
  The first half of a frame, up to the removal of the deleted entities, and the second
  half, from collision detection on.
\<close>

definition update_front :: "nat \<Rightarrow> hooks \<Rightarrow> Game \<Rightarrow> error + Game" where
  "update_front n h w =
     (case update_pass n h w of
        Inl err \<Rightarrow> Inl err
      | Inr w1 \<Rightarrow>
          (case destroy_pass n h w1 of
             Inl err \<Rightarrow> Inl err
           | Inr w2 \<Rightarrow> Inr (compact w2)))"

definition update_back :: "nat \<Rightarrow> hooks \<Rightarrow> Game \<Rightarrow> error + Game" where
  "update_back n h w =
     (case detectCollisions n h w of
        Inl err \<Rightarrow> Inl err
      | Inr w1 \<Rightarrow> lateUpdate_pass n h w1)"

text \<open>
  \<open>Game.update\<close>. When the game is over it registers one more \<open>keyup\<close> listener, whose
  \<open>breakCircuit\<close> is a new variable set to false, and returns.
\<close>

definition update :: "nat \<Rightarrow> hooks \<Rightarrow> Game \<Rightarrow> error + Game" where
  "update n h w =
     (if isGameOver w then Inr (w\<lparr> listeners := listeners w @ [False] \<rparr>)
      else
        (case update_front n h w of
           Inl err \<Rightarrow> Inl err
         | Inr w1 \<Rightarrow> update_back n h w1))"

text \<open>Several frames in a row.\<close>

fun updates :: "nat \<Rightarrow> nat \<Rightarrow> hooks \<Rightarrow> Game \<Rightarrow> error + Game" where
  "updates 0 n h w = Inr w"
| "updates (Suc k) n h w =
     (case update n h w of Inl err \<Rightarrow> Inl err | Inr w1 \<Rightarrow> updates k n h w1)"

subsection \<open>The initial entities and the restart\<close>

text \<open>
  The values of \<open>config.json\<close> that \<open>initEntities\<close> passes to a hitbox or tests; the
  file is not among the sources, so they are a parameter. The sprite names, speeds and
  spawner settings go to other components and are left out.
\<close>

record config =
  dog_enabled :: bool
  dog_startX :: int
  dog_startY :: int
  pen_positionX :: int
  pen_positionY :: int
  pen_width :: int
  pen_height :: int
  leftTable_enabled :: bool
  leftTable_positionX :: int
  leftTable_positionY :: int
  leftTable_width :: int
  leftTable_height :: int
  rightTable_enabled :: bool
  rightTable_positionX :: int
  rightTable_positionY :: int
  rightTable_width :: int
  rightTable_height :: int

definition WORLD_WIDTH :: int where
  "WORLD_WIDTH = 640"

definition WORLD_HEIGHT :: int where
  "WORLD_HEIGHT = 480"

text \<open>\<open>new HitboxComponent(x, y, w, h, options)\<close>; an option left out is empty.\<close>

definition HitboxComponent :: "int \<Rightarrow> int \<Rightarrow> int \<Rightarrow> int \<Rightarrow> string list \<Rightarrow> string list \<Rightarrow> Hitbox" where
  "HitboxComponent px py w h ts bs =
     \<lparr> box_x = px, box_y = py, box_width = w, box_height = h, tags = ts, blocks = bs \<rparr>"

text \<open>\<open>this.addEntity(new Entity().attach(...))\<close>.\<close>

definition add_new :: "nat \<Rightarrow> hooks \<Rightarrow> Hitbox option \<Rightarrow> string list \<Rightarrow> Game \<Rightarrow> error + Game" where
  "add_new n h b cs w = addEntity n h (fst (new_Entity b cs w)) (snd (new_Entity b cs w))"

text \<open>
  \<open>initEntities\<close>: the player, the dog if enabled, the cat spawner, the pen, and each
  table if enabled.
\<close>

definition initEntities :: "nat \<Rightarrow> hooks \<Rightarrow> config \<Rightarrow> Game \<Rightarrow> error + Game" where
  "initEntities n h cfg w =
     (case add_new n h
             (Some (HitboxComponent (WORLD_WIDTH div 2 - 16) (WORLD_HEIGHT div 2 - 16) 32 32
                      [''player''] []))
             [''SpriteComponent'', ''ControllerComponent'', ''ScarerComponent''] w of
        Inl err \<Rightarrow> Inl err
      | Inr w1 \<Rightarrow>
     (case (if dog_enabled cfg then
              add_new n h
                (Some (HitboxComponent (dog_startX cfg) (dog_startY cfg) 32 32 [''dog''] []))
                [''SpriteComponent'', ''ScarerComponent'', ''WanderComponent''] w1
            else Inr w1) of
        Inl err \<Rightarrow> Inl err
      | Inr w2 \<Rightarrow>
     (case add_new n h (Some (HitboxComponent 0 0 100 100 [] []))
             [''SpawnerComponent'', ''DifficultyCurveComponent''] w2 of
        Inl err \<Rightarrow> Inl err
      | Inr w3 \<Rightarrow>
     (case add_new n h
             (Some (HitboxComponent (pen_positionX cfg) (pen_positionY cfg)
                      (pen_width cfg) (pen_height cfg) [] [''player'', ''dog'']))
             [''SpriteComponent'', ''JailerComponent''] w3 of
        Inl err \<Rightarrow> Inl err
      | Inr w4 \<Rightarrow>
     (case (if leftTable_enabled cfg then
              add_new n h
                (Some (HitboxComponent (leftTable_positionX cfg) (leftTable_positionY cfg)
                         (leftTable_width cfg) (leftTable_height cfg) [] [''player'']))
                [''SpriteComponent''] w4
            else Inr w4) of
        Inl err \<Rightarrow> Inl err
      | Inr w5 \<Rightarrow>
          (if rightTable_enabled cfg then
             add_new n h
               (Some (HitboxComponent (rightTable_positionX cfg) (rightTable_positionY cfg)
                        (rightTable_width cfg) (rightTable_height cfg) [] [''player'']))
               [''SpriteComponent''] w5
           else Inr w5))))))"

text \<open>
  The body of the \<open>keyup\<close> listener behind its test: every entity of the array is
  destroyed, the array and the game state are replaced, the initial entities are built.
\<close>

definition restart :: "nat \<Rightarrow> hooks \<Rightarrow> config \<Rightarrow> Game \<Rightarrow> error + Game" where
  "restart n h cfg w =
     (case for_each (entities w) (call_destroy n h) w of
        Inl err \<Rightarrow> Inl err
      | Inr w1 \<Rightarrow> initEntities n h cfg (w1\<lparr> entities := [], state := new_GameState \<rparr>))"

text \<open>
  The listener that the \<open>i\<close>-th game-over call of \<open>update\<close> registered, run on a
  \<open>keyup\<close> event with the given \<open>code\<close>. Its \<open>breakCircuit\<close> is the \<open>i\<close>-th flag.
\<close>

definition listener :: "nat \<Rightarrow> hooks \<Rightarrow> config \<Rightarrow> string \<Rightarrow> nat \<Rightarrow> Game \<Rightarrow> error + Game" where
  "listener n h cfg code i w =
     (if code = ''Space'' \<and> \<not> listeners w ! i then
        (case restart n h cfg w of
           Inl err \<Rightarrow> Inl err
         | Inr w1 \<Rightarrow> Inr (w1\<lparr> listeners := (listeners w1)[i := True] \<rparr>))
      else Inr w)"

text \<open>
  A \<open>keyup\<close> event on the document: every registered listener runs, in the order of
  registration.
\<close>

definition keyup :: "nat \<Rightarrow> hooks \<Rightarrow> config \<Rightarrow> string \<Rightarrow> Game \<Rightarrow> error + Game" where
  "keyup n h cfg code w =
     for_each [0 ..< length (listeners w)] (listener n h cfg code) w"

section \<open>What a run leaves behind\<close>

text \<open>The identifiers assigned during a run, in the order of the assignments.\<close>

fun assigned_ids :: "event list \<Rightarrow> nat list" where
  "assigned_ids [] = []"
| "assigned_ids (Assigned e k # evs) = k # assigned_ids evs"
| "assigned_ids (ev # evs) = assigned_ids evs"

text \<open>The entities on which \<open>destroy\<close> was called, in the order of the calls.\<close>

fun destroyed :: "event list \<Rightarrow> ref list" where
  "destroyed [] = []"
| "destroyed (Destroyed e # evs) = e # destroyed evs"
| "destroyed (ev # evs) = destroyed evs"

text \<open>The calls of \<open>collidedWith\<close>, in order.\<close>

fun is_Collided :: "event \<Rightarrow> bool" where
  "is_Collided (Collided a b) = True"
| "is_Collided ev = False"

definition collisions :: "event list \<Rightarrow> event list" where
  "collisions evs = filter is_Collided evs"

definition both_ways :: "ref \<Rightarrow> ref \<Rightarrow> event list" where
  "both_ways a b = [Collided a b, Collided b a]"

text \<open>Both entities carry a hitbox in world \<open>w\<close> and the two hitboxes intersect.\<close>

definition boxes_intersect :: "hooks \<Rightarrow> Game \<Rightarrow> ref \<Rightarrow> ref \<Rightarrow> bool" where
  "boxes_intersect h w a b =
     (case (getHitboxFrom w a, getHitboxFrom w b) of
        (Some x, Some y) \<Rightarrow> intersects h x y
      | _ \<Rightarrow> False)"

text \<open>The index pairs \<open>i < j < n\<close> in the order in which the two loops visit them.\<close>

definition index_pairs :: "nat \<Rightarrow> (nat \<times> nat) list" where
  "index_pairs n = concat (map (\<lambda>i. map (Pair i) [i + 1 ..< n]) [0 ..< n])"

text \<open>
  The world at the moment the outer loop of \<open>detectCollisions\<close>, started in \<open>w\<close>,
  reaches index \<open>i\<close>, and at the moment it reaches the pair \<open>(i, j)\<close>: the loops run
  up to there. A row whose entity is deleted at its start has no inner loop, and the
  world stays what it was at the start of the row.
\<close>

definition row_start :: "nat \<Rightarrow> hooks \<Rightarrow> Game \<Rightarrow> nat \<Rightarrow> error + Game" where
  "row_start n h w i = for_each [0 ..< i] (collide_row n h (entities w)) w"

definition pair_start :: "nat \<Rightarrow> hooks \<Rightarrow> Game \<Rightarrow> nat \<Rightarrow> nat \<Rightarrow> error + Game" where
  "pair_start n h w i j =
     (case row_start n h w i of
        Inl err \<Rightarrow> Inl err
      | Inr r \<Rightarrow>
          if is_deleted r (entities w ! i) then Inr r
          else for_each [i + 1 ..< j]
                 (\<lambda>k. collide_pair n h (entities w ! i) (entities w ! k)) r)"

text \<open>
  What the code decides at the pair \<open>(i, j)\<close>: the first entity was not deleted when
  its row began, the second is not deleted when the pair is reached, and the hitboxes
  intersect then.
\<close>

definition pair_fires :: "nat \<Rightarrow> hooks \<Rightarrow> Game \<Rightarrow> nat \<times> nat \<Rightarrow> bool" where
  "pair_fires n h w ij =
     (case (row_start n h w (fst ij), pair_start n h w (fst ij) (snd ij)) of
        (Inr r, Inr p) \<Rightarrow>
          \<not> is_deleted r (entities w ! fst ij) \<and> \<not> is_deleted p (entities w ! snd ij) \<and>
          boxes_intersect h p (entities w ! fst ij) (entities w ! snd ij)
      | _ \<Rightarrow> False)"

text \<open>
  When the pair is reached in world \<open>p\<close>, neither entity is deleted and the hitboxes
  intersect; and the opposite: the first entity was deleted in the world \<open>r\<close> at the
  start of its row, or the second is deleted in \<open>p\<close>, or the hitboxes do not intersect
  in \<open>p\<close>.
\<close>

definition must_fire :: "hooks \<Rightarrow> Game \<Rightarrow> ref \<Rightarrow> ref \<Rightarrow> bool" where
  "must_fire h p a b = (\<not> is_deleted p a \<and> \<not> is_deleted p b \<and> boxes_intersect h p a b)"

definition must_not_fire :: "hooks \<Rightarrow> Game \<Rightarrow> Game \<Rightarrow> ref \<Rightarrow> ref \<Rightarrow> bool" where
  "must_not_fire h r p a b = (is_deleted r a \<or> is_deleted p b \<or> \<not> boxes_intersect h p a b)"

subsection \<open>The order of \<open>addEntity\<close> in the specification\<close>

text \<open>
  The specification lists the steps of \<open>addEntity\<close> as: assign the next identifier, call
  \<open>spawn\<close>, append. This definition follows that order, for comparison with
  \<open>addEntity\<close>.
\<close>

definition addEntity_as_specified :: "nat \<Rightarrow> hooks \<Rightarrow> ref \<Rightarrow> Game \<Rightarrow> error + Game" where
  "addEntity_as_specified n h e w =
     (case n of
        0 \<Rightarrow> Inl StackExhausted
      | Suc m \<Rightarrow>
          (let w0 = (map_entity e (\<lambda>ent. ent\<lparr> entityId := Some (count w) \<rparr>)
                       (log (Assigned e (count w)) w))\<lparr> count := count w + 1 \<rparr>
           in case exec m h (onSpawn h e (log (Spawned e) w0)) (log (Spawned e) w0) of
                Inl err \<Rightarrow> Inl err
              | Inr w1 \<Rightarrow> Inr (w1\<lparr> entities := entities w1 @ [e] \<rparr>)))"

subsection \<open>Relations between the world before and after a call\<close>

text \<open>
  The store has not shrunk and the array has only grown at its end, by references that
  did not exist before.
\<close>

definition ext :: "Game \<Rightarrow> Game \<Rightarrow> bool" where
  "ext w w' =
     (length (heap w) \<le> length (heap w') \<and>
      (\<exists>new. entities w' = entities w @ new \<and> list_all (\<lambda>r. length (heap w) \<le> r) new))"

definition ext_add :: "ref \<Rightarrow> Game \<Rightarrow> Game \<Rightarrow> bool" where
  "ext_add e w w' =
     (length (heap w) \<le> length (heap w') \<and>
      (\<exists>new. entities w' = entities w @ new @ [e] \<and>
             list_all (\<lambda>r. length (heap w) \<le> r) new))"

text \<open>The events that the actions of a hook can add: those of \<open>addEntity\<close>.\<close>

fun hook_event :: "event \<Rightarrow> bool" where
  "hook_event (Spawned e) = True"
| "hook_event (Assigned e k) = True"
| "hook_event (Updated e) = False"
| "hook_event (Destroyed e) = False"
| "hook_event (Collided a b) = False"
| "hook_event (LateUpdated e) = False"

text \<open>The trace has grown at its end, by events that satisfy \<open>Q\<close>.\<close>

definition adds :: "(event \<Rightarrow> bool) \<Rightarrow> Game \<Rightarrow> Game \<Rightarrow> bool" where
  "adds Q w w' = (\<exists>evs. trace w' = trace w @ evs \<and> list_all Q evs)"

definition not_update_of :: "ref \<Rightarrow> event \<Rightarrow> bool" where
  "not_update_of e ev = (ev \<noteq> Updated e)"

text \<open>The identifiers assigned between two worlds are the values the counter ran through.\<close>

definition counted :: "Game \<Rightarrow> Game \<Rightarrow> bool" where
  "counted w w' =
     (count w \<le> count w' \<and>
      assigned_ids (trace w') = assigned_ids (trace w) @ [count w ..< count w'])"

section \<open>Example worlds and hooks\<close>

text \<open>
  Modelled from the spec: \<open>HitboxComponent.intersects\<close> (its file is not among the
  sources), the test for two axis-aligned boxes to overlap.
\<close>

definition aabb :: "Hitbox \<Rightarrow> Hitbox \<Rightarrow> bool" where
  "aabb a b =
     (box_x a < box_x b + box_width b \<and> box_x a + box_width a > box_x b \<and>
      box_y a < box_y b + box_height b \<and> box_y a + box_height a > box_y b)"

text \<open>Components that do nothing in any hook.\<close>

definition no_hooks :: hooks where
  "no_hooks =
     \<lparr> onSpawn = (\<lambda>e w. []), onUpdate = (\<lambda>e w. []), onLateUpdate = (\<lambda>e w. []),
       onDestroy = (\<lambda>e w. []), onCollide = (\<lambda>a b w. []), intersects = aabb \<rparr>"

text \<open>
  The scenario of the specification: a player at (0, 0) and a cat at (20, 0), both 32 by
  32, which overlap; and a second cat at (10, 0) that overlaps both.
\<close>

definition boxA :: Hitbox where
  "boxA = HitboxComponent 0 0 32 32 [''player''] []"

definition boxB :: Hitbox where
  "boxB = HitboxComponent 20 0 32 32 [''cat''] []"

definition boxC :: Hitbox where
  "boxC = HitboxComponent 10 0 32 32 [''cat''] []"

text \<open>The world after adding an entity for each of the given hitboxes to a new game.\<close>

definition scene :: "Hitbox list \<Rightarrow> error + Game" where
  "scene bs = for_each bs (\<lambda>b. add_new 1 no_hooks (Some b) []) new_Game"

definition scene2 :: Game where
  "scene2 =
     \<lparr> entities = [0, 1], count = 3, state = new_GameState,
       heap = [\<lparr> entityId = Some 1, deleted = False, hitbox = Some boxA, components = [] \<rparr>,
               \<lparr> entityId = Some 2, deleted = False, hitbox = Some boxB, components = [] \<rparr>],
       listeners = [],
       trace = [Spawned 0, Assigned 0 1, Spawned 1, Assigned 1 2] \<rparr>"

definition scene3 :: Game where
  "scene3 =
     \<lparr> entities = [0, 1, 2], count = 4, state = new_GameState,
       heap = [\<lparr> entityId = Some 1, deleted = False, hitbox = Some boxA, components = [] \<rparr>,
               \<lparr> entityId = Some 2, deleted = False, hitbox = Some boxB, components = [] \<rparr>,
               \<lparr> entityId = Some 3, deleted = False, hitbox = Some boxC, components = [] \<rparr>],
       listeners = [],
       trace = [Spawned 0, Assigned 0 1, Spawned 1, Assigned 1 2, Spawned 2, Assigned 2 3] \<rparr>"

text \<open>Every entity deletes itself when its hitbox is told of a collision.\<close>

definition self_destruct :: hooks where
  "self_destruct = no_hooks\<lparr> onCollide := (\<lambda>a b w. [MarkDeleted a]) \<rparr>"

text \<open>Only the entity \<open>e\<close> does.\<close>

definition only_destructs :: "ref \<Rightarrow> hooks" where
  "only_destructs e = no_hooks\<lparr> onCollide := (\<lambda>a b w. if a = e then [MarkDeleted a] else []) \<rparr>"

text \<open>
  Entity 1 deletes itself in its update hook, and entity 0 deletes itself when its
  hitbox is told of a collision.
\<close>

definition drops_in_update :: hooks where
  "drops_in_update =
     no_hooks\<lparr> onUpdate := (\<lambda>e w. if e = 1 then [MarkDeleted 1] else []),
               onCollide := (\<lambda>a b w. if a = 0 then [MarkDeleted 0] else []) \<rparr>"

text \<open>
  A spawn hook that looks at the identifier of its entity and takes a life if there is
  none yet.
\<close>

definition probe_id :: hooks where
  "probe_id =
     no_hooks\<lparr> onSpawn := (\<lambda>e w.
       if e < length (heap w) \<and> entityId (heap w ! e) = None then [OnState LoseLife] else []) \<rparr>"

text \<open>A new game in which one entity, or three, have been built and none added.\<close>

definition one_built :: Game where
  "one_built = snd (new_Entity (Some boxA) [] new_Game)"

definition three_built :: Game where
  "three_built =
     snd (new_Entity (Some boxC) []
       (snd (new_Entity (Some boxB) [] (snd (new_Entity (Some boxA) [] new_Game)))))"

text \<open>The first entity adds a cat in its update hook; and the same, deleting it at once.\<close>

definition spawner :: hooks where
  "spawner =
     no_hooks\<lparr> onUpdate := (\<lambda>e w.
       if e = 0 then [AddNew (Some boxC) [''CatMetaComponent'']] else []) \<rparr>"

definition spawn_and_drop :: hooks where
  "spawn_and_drop =
     no_hooks\<lparr> onUpdate := (\<lambda>e w.
       if e = 0 then [AddNew (Some boxC) [''CatMetaComponent''], MarkDeleted (length (heap w))]
       else []) \<rparr>"

text \<open>The last life is lost: three calls of \<open>loseLife\<close> on the game state.\<close>

definition lose_all_lives :: "Game \<Rightarrow> Game" where
  "lose_all_lives w = w\<lparr> state := apply_state_ops [LoseLife, LoseLife, LoseLife] (state w) \<rparr>"

definition game_over_scene :: Game where
  "game_over_scene = lose_all_lives scene2"

text \<open>A configuration with the dog and both tables disabled.\<close>

definition small_config :: config where
  "small_config =
     \<lparr> dog_enabled = False, dog_startX = 0, dog_startY = 0,
       pen_positionX = 500, pen_positionY = 100, pen_width = 100, pen_height = 100,
       leftTable_enabled = False, leftTable_positionX = 0, leftTable_positionY = 0,
       leftTable_width = 0, leftTable_height = 0,
       rightTable_enabled = False, rightTable_positionX = 0, rightTable_positionY = 0,
       rightTable_width = 0, rightTable_height = 0 \<rparr>"

text \<open>
  A game is set up, the last life is lost, \<open>update\<close> is called for the given number of
  frames, and then the keys are released one after the other.
\<close>

definition game_over_run :: "nat \<Rightarrow> string list \<Rightarrow> error + Game" where
  "game_over_run frames keys =
     (case initEntities 1 no_hooks small_config new_Game of
        Inl err \<Rightarrow> Inl err
      | Inr w0 \<Rightarrow>
          (case updates frames 1 no_hooks (lose_all_lives w0) of
             Inl err \<Rightarrow> Inl err
           | Inr w1 \<Rightarrow> for_each keys (\<lambda>code. keyup 1 no_hooks small_config code) w1))"

section \<open>Properties of the game state\<close>

lemma increaseScore_simps:
  "lives (increaseScore a s) = (if catsReturnedinARow s + 1 > 5 then lives s + 1 else lives s)"
  "score (increaseScore a s) = score s + a"
  "catsReturnedinARow (increaseScore a s) =
     (if catsReturnedinARow s + 1 > 5 then 0 else catsReturnedinARow s + 1)"
  by (simp_all add: increaseScore_def set_catsReturnedinARow_def gainLife_def Let_def)

lemma loseLife_simps:
  "lives (loseLife s) = lives s - 1"
  "score (loseLife s) = score s"
  "catsReturnedinARow (loseLife s) = 0"
  by (simp_all add: loseLife_def set_catsReturnedinARow_def Let_def)

lemma gainLife_simps:
  "lives (gainLife s) = lives s + 1"
  "score (gainLife s) = score s"
  "catsReturnedinARow (gainLife s) = catsReturnedinARow s"
  by (simp_all add: gainLife_def)

text \<open>
  C5. On a fresh game state, six calls of \<open>increaseScore(1)\<close> in a row leave four lives
  and a streak of 0: the streak climbs to 5, and the sixth call, whose new value 6
  exceeds 5, grants the bonus life and resets the streak. In any state, \<open>increaseScore\<close>
  raises the streak by one, or, where that would exceed 5, adds a life and sets the
  streak to 0; and \<open>loseLife()\<close> first sets the streak to 0 (the setter is called with
  0, which grants nothing) and then takes exactly one life.
\<close>

theorem streak_rule:
  "lives ((increaseScore 1 ^^ 6) new_GameState) = 4 \<and>
   catsReturnedinARow ((increaseScore 1 ^^ 6) new_GameState) = 0 \<and>
   map (\<lambda>k. catsReturnedinARow ((increaseScore 1 ^^ k) new_GameState)) [1, 2, 3, 4, 5]
     = [1, 2, 3, 4, 5] \<and>
   map (\<lambda>k. lives ((increaseScore 1 ^^ k) new_GameState)) [1, 2, 3, 4, 5]
     = [3, 3, 3, 3, 3] \<and>
   catsReturnedinARow (increaseScore amount s) =
     (if catsReturnedinARow s + 1 > 5 then 0 else catsReturnedinARow s + 1) \<and>
   lives (increaseScore amount s) =
     (if catsReturnedinARow s + 1 > 5 then lives s + 1 else lives s) \<and>
   set_catsReturnedinARow 0 s = s\<lparr> catsReturnedinARow := 0 \<rparr> \<and>
   loseLife s = (set_catsReturnedinARow 0 s)\<lparr> lives := lives s - 1 \<rparr> \<and>
   lives (loseLife s) = lives s - 1 \<and>
   catsReturnedinARow (loseLife s) = 0"
proof -
  have six: "lives ((increaseScore 1 ^^ 6) new_GameState) = 4 \<and>
      catsReturnedinARow ((increaseScore 1 ^^ 6) new_GameState) = 0"
    by (simp add: numeral_eq_Suc increaseScore_simps new_GameState_def)
  have upto: "map (\<lambda>k. catsReturnedinARow ((increaseScore 1 ^^ k) new_GameState)) [1, 2, 3, 4, 5]
        = [1, 2, 3, 4, 5] \<and>
      map (\<lambda>k. lives ((increaseScore 1 ^^ k) new_GameState)) [1, 2, 3, 4, 5] = [3, 3, 3, 3, 3]"
    by (simp add: numeral_eq_Suc increaseScore_simps new_GameState_def)
  have lose: "set_catsReturnedinARow 0 s = s\<lparr> catsReturnedinARow := 0 \<rparr> \<and>
      loseLife s = (set_catsReturnedinARow 0 s)\<lparr> lives := lives s - 1 \<rparr>"
    by (simp add: loseLife_def set_catsReturnedinARow_def Let_def)
  have after: "lives (loseLife s) = lives s - 1 \<and> catsReturnedinARow (loseLife s) = 0"
    by (simp add: loseLife_simps)
  have step: "catsReturnedinARow (increaseScore amount s) =
        (if catsReturnedinARow s + 1 > 5 then 0 else catsReturnedinARow s + 1) \<and>
      lives (increaseScore amount s) =
        (if catsReturnedinARow s + 1 > 5 then lives s + 1 else lives s)"
    by (simp only: increaseScore_simps simp_thms)
  from six upto step lose after show ?thesis by blast
qed

text \<open>
  C9, as the code has it. \<open>increaseScore\<close> adds its argument to the score without
  looking at its sign, so a negative amount lowers the score.
\<close>

theorem score_decreases_counterexample:
  "score (increaseScore (- 1) new_GameState) < score new_GameState \<and>
   score0 (increaseScore0 (- 1) new_GameState0) < score0 new_GameState0"
  by (simp add: increaseScore_simps new_GameState_def increaseScore0_def new_GameState0_def)

lemma apply_state_op_score:
  "op_amount_ok x \<Longrightarrow> score s \<le> score (apply_state_op x s)"
  by (cases x) (simp_all add: increaseScore_simps loseLife_simps gainLife_simps)

text \<open>
  C9, amended. For every sequence of calls of \<open>increaseScore\<close>, \<open>loseLife\<close> and
  \<open>gainLife\<close> in which every amount passed to \<open>increaseScore\<close> is at least 0, the score
  after the sequence is at least the score before it.
\<close>

theorem score_non_decreasing:
  "list_all op_amount_ok ops \<Longrightarrow> score s \<le> score (apply_state_ops ops s)"
proof (induction ops arbitrary: s)
  case Nil
  then show ?case by simp
next
  case (Cons x xs)
  from Cons.prems have x: "op_amount_ok x" and xs: "list_all op_amount_ok xs"
    by simp_all
  have "score s \<le> score (apply_state_op x s)"
    using x by (rule apply_state_op_score)
  also have "\<dots> \<le> score (apply_state_ops xs (apply_state_op x s))"
    using xs by (rule Cons.IH)
  finally show ?case by simp
qed

theorem score_non_decreasing_witness:
  "list_all op_amount_ok [IncreaseScore 2, LoseLife, IncreaseScore 0, GainLife] \<and>
   score new_GameState
     \<le> score (apply_state_ops [IncreaseScore 2, LoseLife, IncreaseScore 0, GainLife] new_GameState) \<and>
   score (apply_state_ops [IncreaseScore 2, LoseLife, IncreaseScore 0, GainLife] new_GameState) = 2"
  using score_non_decreasing
    [of "[IncreaseScore 2, LoseLife, IncreaseScore 0, GainLife]" new_GameState]
  by (simp add: increaseScore_simps loseLife_simps gainLife_simps new_GameState_def)

text \<open>
  The same holds for the game state of \<open>store.ts\<close>: \<open>loseLife\<close> leaves the score
  alone and \<open>increaseScore\<close> with an amount of at least 0 does not lower it.
\<close>

lemma score0_non_decreasing:
  "score0 (loseLife0 s) = score0 s"
  "0 \<le> amount \<Longrightarrow> score0 s \<le> score0 (increaseScore0 amount s)"
  by (simp_all add: loseLife0_def increaseScore0_def)

section \<open>Loops\<close>

lemma for_each_rel:
  assumes step: "\<And>a u u'. a \<in> set as \<Longrightarrow> f a u = Inr u' \<Longrightarrow> R u u'"
    and refl: "\<And>u. R u u"
    and trans: "\<And>u1 u2 u3. R u1 u2 \<Longrightarrow> R u2 u3 \<Longrightarrow> R u1 u3"
    and run: "for_each as f w = Inr w'"
  shows "R w w'"
  using step run
proof (induction as arbitrary: w)
  case Nil
  then show ?case by (simp add: refl)
next
  case (Cons a as)
  from Cons.prems(2) obtain w1 where a: "f a w = Inr w1" and r: "for_each as f w1 = Inr w'"
    by (auto split: sum.splits)
  have "R w w1" using Cons.prems(1)[OF _ a] by simp
  moreover have "R w1 w'"
  proof (rule Cons.IH[OF _ r])
    fix b u u' assume "b \<in> set as" and "f b u = Inr u'"
    then show "R u u'" using Cons.prems(1)[of b u u'] by simp
  qed
  ultimately show ?case by (rule trans)
qed

lemma for_each_append:
  "for_each (as @ bs) f w = (case for_each as f w of Inl err \<Rightarrow> Inl err | Inr u \<Rightarrow> for_each bs f u)"
  by (induction as arbitrary: w) (simp_all split: sum.splits)

lemma upt_split: "a \<le> b \<Longrightarrow> b \<le> c \<Longrightarrow> [a ..< b] @ [b ..< c] = [a ..< c]"
  by (metis le_Suc_ex upt_add_eq_append)

lemma for_each_upt_prefix:
  assumes "for_each [a ..< b] f w = Inr w'" and "a \<le> k" and "k \<le> b"
  shows "\<exists>u. for_each [a ..< k] f w = Inr u \<and> for_each [k ..< b] f u = Inr w'"
proof -
  have "[a ..< b] = [a ..< k] @ [k ..< b]" using assms(2,3) by (simp add: upt_split)
  with assms(1) show ?thesis by (auto simp: for_each_append split: sum.splits)
qed

lemma for_each_upt_collect:
  assumes run: "for_each [a ..< b] f w = Inr w'"
    and step: "\<And>k u u'. a \<le> k \<Longrightarrow> k < b \<Longrightarrow> for_each [a ..< k] f w = Inr u \<Longrightarrow>
                 f k u = Inr u' \<Longrightarrow> obs u' = obs u @ g k"
  shows "obs w' = obs w @ concat (map g [a ..< b])"
  using run step
proof (induction b arbitrary: w')
  case 0
  then show ?case by simp
next
  case (Suc b)
  show ?case
  proof (cases "a \<le> b")
    case False
    with Suc.prems(1) show ?thesis by simp
  next
    case True
    then have sp: "[a ..< Suc b] = [a ..< b] @ [b]" by simp
    from Suc.prems(1) obtain u where pre: "for_each [a ..< b] f w = Inr u" and last: "f b u = Inr w'"
      unfolding sp by (auto simp: for_each_append split: sum.splits)
    have "obs u = obs w @ concat (map g [a ..< b])"
    proof (rule Suc.IH[OF pre])
      fix k v v' assume "a \<le> k" "k < b" "for_each [a ..< k] f w = Inr v" "f k v = Inr v'"
      then show "obs v' = obs v @ g k" using Suc.prems(2)[of k v v'] by simp
    qed
    moreover have "obs w' = obs u @ g b"
      using Suc.prems(2)[OF True _ pre last] by simp
    ultimately show ?thesis unfolding sp by simp
  qed
qed

section \<open>What hooks can change\<close>

subsection \<open>The store and the array only grow\<close>

lemma ext_refl: "ext w w"
  by (simp add: ext_def)

lemma ext_trans: "ext w1 w2 \<Longrightarrow> ext w2 w3 \<Longrightarrow> ext w1 w3"
  unfolding ext_def
  by (fastforce simp: list_all_iff)

lemma ext_map_entity: "ext w (map_entity e f w)"
  by (simp add: ext_def map_entity_def)

lemma ext_log: "ext w (log ev w)"
  by (simp add: ext_def log_def)

lemma ext_state: "ext w (w\<lparr> state := s \<rparr>)"
  by (simp add: ext_def)

lemma ext_add_new_Entity:
  "ext_add (fst (new_Entity b cs w)) (snd (new_Entity b cs w)) w' \<Longrightarrow> ext w w'"
  unfolding ext_def ext_add_def new_Entity_def
  by (fastforce simp: list_all_iff)

lemma ext_heap_len: "ext w w' \<Longrightarrow> length (heap w) \<le> length (heap w')"
  by (simp add: ext_def)

lemma ext_add_heap_len: "ext_add e w w' \<Longrightarrow> length (heap w) \<le> length (heap w')"
  by (simp add: ext_add_def)

lemma exec_ext: "exec n h acts w = Inr w' \<Longrightarrow> ext w w'"
  and addEntity_ext_add: "addEntity n h e w = Inr w' \<Longrightarrow> ext_add e w w'"
proof (induction n h acts w and n h e w arbitrary: w' and w' rule: exec_addEntity.induct)
  case (1 n h w)
  then show ?case by (simp add: ext_refl)
next
  case (2 n h e acts w)
  then show ?case using ext_trans[OF ext_map_entity] by simp
next
  case (3 n h e b acts w)
  then show ?case using ext_trans[OF ext_map_entity] by simp
next
  case (4 n h f acts w)
  then show ?case using ext_trans[OF ext_state] by simp
next
  case (5 n h b cs acts w)
  from "5.prems" obtain w1 where
    a: "addEntity n h (fst (new_Entity b cs w)) (snd (new_Entity b cs w)) = Inr w1"
    and r: "exec n h acts w1 = Inr w'"
    by (auto split: sum.splits)
  have "ext w w1" using "5.IH"(1)[OF a] by (rule ext_add_new_Entity)
  moreover have "ext w1 w'" using "5.IH"(2)[OF a r] .
  ultimately show ?case by (rule ext_trans)
next
  case (6 h e w)
  then show ?case by simp
next
  case (7 n h e w)
  from "7.prems" obtain w1 where
    x: "exec n h (onSpawn h e (log (Spawned e) w)) (log (Spawned e) w) = Inr w1"
    and w': "w' = (map_entity e (\<lambda>ent. ent\<lparr> entityId := Some (count w1) \<rparr>)
                  (log (Assigned e (count w1)) w1))
                \<lparr> count := count w1 + 1, entities := entities w1 @ [e] \<rparr>"
    by (auto split: sum.splits)
  have "ext (log (Spawned e) w) w1" using "7.IH"[OF x] .
  then show ?case
    unfolding w' ext_def ext_add_def by (auto simp: log_def map_entity_def)
qed

lemma for_each_ext:
  "(\<And>a u u'. a \<in> set as \<Longrightarrow> f a u = Inr u' \<Longrightarrow> ext u u') \<Longrightarrow> for_each as f w = Inr w' \<Longrightarrow> ext w w'"
  by (rule for_each_rel[where R = ext and f = f and as = as]) (auto intro: ext_refl ext_trans)

lemma call_update_ext: "call_update n h e w = Inr w' \<Longrightarrow> ext w w'"
  unfolding call_update_def by (rule ext_trans[OF ext_log exec_ext])

lemma call_lateUpdate_ext: "call_lateUpdate n h e w = Inr w' \<Longrightarrow> ext w w'"
  unfolding call_lateUpdate_def by (rule ext_trans[OF ext_log exec_ext])

lemma call_destroy_ext: "call_destroy n h e w = Inr w' \<Longrightarrow> ext w w'"
  unfolding call_destroy_def by (rule ext_trans[OF ext_log exec_ext])

lemma collidedWith_ext: "collidedWith n h a b w = Inr w' \<Longrightarrow> ext w w'"
  unfolding collidedWith_def by (rule ext_trans[OF ext_log exec_ext])

lemma collide_pair_ext: "collide_pair n h e1 e2 w = Inr w' \<Longrightarrow> ext w w'"
  unfolding collide_pair_def
  by (auto split: if_splits option.splits sum.splits
      intro: ext_refl ext_trans[OF collidedWith_ext collidedWith_ext])

lemma collide_row_ext: "collide_row n h xs i w = Inr w' \<Longrightarrow> ext w w'"
  unfolding collide_row_def
  by (auto split: if_splits intro: ext_refl for_each_ext collide_pair_ext)

lemma detectCollisions_ext: "detectCollisions n h w = Inr w' \<Longrightarrow> ext w w'"
  unfolding detectCollisions_def
  by (rule for_each_ext) (rule collide_row_ext)

lemma update_pass_ext: "update_pass n h w = Inr w' \<Longrightarrow> ext w w'"
  unfolding update_pass_def by (rule for_each_ext) (rule call_update_ext)

lemma destroy_pass_ext: "destroy_pass n h w = Inr w' \<Longrightarrow> ext w w'"
  unfolding destroy_pass_def by (rule for_each_ext) (rule call_destroy_ext)

lemma lateUpdate_pass_ext: "lateUpdate_pass n h w = Inr w' \<Longrightarrow> ext w w'"
  unfolding lateUpdate_pass_def by (rule for_each_ext) (rule call_lateUpdate_ext)

lemma update_back_ext: "update_back n h w = Inr w' \<Longrightarrow> ext w w'"
  unfolding update_back_def
  by (auto split: sum.splits intro: ext_trans[OF detectCollisions_ext lateUpdate_pass_ext])

lemma compact_clean: "list_all (\<lambda>e. \<not> is_deleted (compact w) e) (entities (compact w))"
  by (simp add: compact_def is_deleted_def list_all_iff)

lemma ext_not_deleted_before:
  assumes "ext w w'" and "list_all (\<lambda>e. \<not> is_deleted w e) (entities w)"
  shows "list_all (\<lambda>e. \<not> is_deleted w e) (entities w')"
  using assms unfolding ext_def is_deleted_def
  by (fastforce simp: list_all_iff)

subsection \<open>The trace only grows, and hooks add no call of the world\<close>

lemma adds_refl: "adds Q w w"
  by (simp add: adds_def)

lemma adds_trans: "adds Q w1 w2 \<Longrightarrow> adds Q w2 w3 \<Longrightarrow> adds Q w1 w3"
  unfolding adds_def by fastforce

lemma adds_mono: "adds Q w w' \<Longrightarrow> (\<And>ev. Q ev \<Longrightarrow> Q' ev) \<Longrightarrow> adds Q' w w'"
  unfolding adds_def by (auto simp: list_all_iff)

lemma adds_log: "Q ev \<Longrightarrow> adds Q w (log ev w)"
  by (simp add: adds_def log_def)

lemma adds_same_trace: "trace w' = trace w \<Longrightarrow> adds Q w w'"
  by (simp add: adds_def)

lemma exec_adds: "exec n h acts w = Inr w' \<Longrightarrow> adds hook_event w w'"
  and addEntity_adds: "addEntity n h e w = Inr w' \<Longrightarrow> adds hook_event w w'"
proof (induction n h acts w and n h e w arbitrary: w' and w' rule: exec_addEntity.induct)
  case (1 n h w)
  then show ?case by (simp add: adds_refl)
next
  case (2 n h e acts w)
  have "adds hook_event w (map_entity e (\<lambda>ent. ent\<lparr> deleted := True \<rparr>) w)"
    by (rule adds_same_trace) (simp add: map_entity_def)
  then show ?case using 2 by (auto intro: adds_trans)
next
  case (3 n h e b acts w)
  have "adds hook_event w (map_entity e (\<lambda>ent. ent\<lparr> hitbox := Some b \<rparr>) w)"
    by (rule adds_same_trace) (simp add: map_entity_def)
  then show ?case using 3 by (auto intro: adds_trans)
next
  case (4 n h f acts w)
  have "adds hook_event w (w\<lparr> state := apply_state_op f (state w) \<rparr>)"
    by (rule adds_same_trace) simp
  then show ?case using 4 by (auto intro: adds_trans)
next
  case (5 n h b cs acts w)
  from "5.prems" obtain w1 where
    a: "addEntity n h (fst (new_Entity b cs w)) (snd (new_Entity b cs w)) = Inr w1"
    and r: "exec n h acts w1 = Inr w'"
    by (auto split: sum.splits)
  have "adds hook_event w (snd (new_Entity b cs w))"
    by (rule adds_same_trace) (simp add: new_Entity_def)
  moreover have "adds hook_event (snd (new_Entity b cs w)) w1" using "5.IH"(1)[OF a] .
  moreover have "adds hook_event w1 w'" using "5.IH"(2)[OF a r] .
  ultimately show ?case by (blast intro: adds_trans)
next
  case (6 h e w)
  then show ?case by simp
next
  case (7 n h e w)
  from "7.prems" obtain w1 where
    x: "exec n h (onSpawn h e (log (Spawned e) w)) (log (Spawned e) w) = Inr w1"
    and w': "w' = (map_entity e (\<lambda>ent. ent\<lparr> entityId := Some (count w1) \<rparr>)
                  (log (Assigned e (count w1)) w1))
                \<lparr> count := count w1 + 1, entities := entities w1 @ [e] \<rparr>"
    by (auto split: sum.splits)
  have "adds hook_event w (log (Spawned e) w)" by (rule adds_log) simp
  moreover have "adds hook_event (log (Spawned e) w) w1" using "7.IH"[OF x] .
  moreover have "adds hook_event w1 w'"
    unfolding w' adds_def by (simp add: log_def map_entity_def)
  ultimately show ?case by (blast intro: adds_trans)
qed

lemma for_each_adds:
  "(\<And>a u u'. a \<in> set as \<Longrightarrow> f a u = Inr u' \<Longrightarrow> adds Q u u') \<Longrightarrow> for_each as f w = Inr w' \<Longrightarrow> adds Q w w'"
  by (rule for_each_rel[where R = "adds Q" and f = f and as = as]) (auto intro: adds_refl adds_trans)

lemma hook_adds:
  assumes run: "exec n h acts (log ev w) = Inr w'"
    and ev: "Q ev" and hk: "\<And>x. hook_event x \<Longrightarrow> Q x"
  shows "adds Q w w'"
proof -
  have "adds Q w (log ev w)" using ev by (rule adds_log)
  moreover have "adds Q (log ev w) w'" using exec_adds[OF run] hk by (rule adds_mono)
  ultimately show ?thesis by (rule adds_trans)
qed

lemma call_update_adds:
  "call_update n h e w = Inr w' \<Longrightarrow> Q (Updated e) \<Longrightarrow> (\<And>x. hook_event x \<Longrightarrow> Q x) \<Longrightarrow> adds Q w w'"
  unfolding call_update_def by (rule hook_adds)

lemma call_lateUpdate_adds:
  "call_lateUpdate n h e w = Inr w' \<Longrightarrow> Q (LateUpdated e) \<Longrightarrow> (\<And>x. hook_event x \<Longrightarrow> Q x) \<Longrightarrow> adds Q w w'"
  unfolding call_lateUpdate_def by (rule hook_adds)

lemma call_destroy_adds:
  "call_destroy n h e w = Inr w' \<Longrightarrow> Q (Destroyed e) \<Longrightarrow> (\<And>x. hook_event x \<Longrightarrow> Q x) \<Longrightarrow> adds Q w w'"
  unfolding call_destroy_def by (rule hook_adds)

lemma collidedWith_adds:
  "collidedWith n h a b w = Inr w' \<Longrightarrow> Q (Collided a b) \<Longrightarrow> (\<And>x. hook_event x \<Longrightarrow> Q x) \<Longrightarrow> adds Q w w'"
  unfolding collidedWith_def by (rule hook_adds)

lemma hook_event_not_update: "hook_event x \<Longrightarrow> not_update_of e x"
  by (cases x) (simp_all add: not_update_of_def)

lemma call_update_not_update:
  "call_update n h a u = Inr u' \<Longrightarrow> a \<noteq> e \<Longrightarrow> adds (not_update_of e) u u'"
  by (erule call_update_adds) (simp_all add: hook_event_not_update, simp add: not_update_of_def)

lemma call_destroy_not_update:
  "call_destroy n h a u = Inr u' \<Longrightarrow> adds (not_update_of e) u u'"
  by (erule call_destroy_adds) (simp_all add: hook_event_not_update, simp add: not_update_of_def)

lemma call_lateUpdate_not_update:
  "call_lateUpdate n h a u = Inr u' \<Longrightarrow> adds (not_update_of e) u u'"
  by (erule call_lateUpdate_adds) (simp_all add: hook_event_not_update, simp add: not_update_of_def)

lemma collidedWith_not_update:
  "collidedWith n h a b u = Inr u' \<Longrightarrow> adds (not_update_of e) u u'"
  by (erule collidedWith_adds) (simp_all add: hook_event_not_update, simp add: not_update_of_def)

lemma update_pass_adds:
  assumes "update_pass n h w = Inr w'" and "e \<notin> set (entities w)"
  shows "adds (not_update_of e) w w'"
  using assms(1) unfolding update_pass_def
proof (rule for_each_adds[rotated])
  fix a u u' assume "a \<in> set (entities w)" and c: "call_update n h a u = Inr u'"
  with assms(2) have "a \<noteq> e" by auto
  with c show "adds (not_update_of e) u u'" by (rule call_update_not_update)
qed

lemma destroy_pass_adds: "destroy_pass n h w = Inr w' \<Longrightarrow> adds (not_update_of e) w w'"
  unfolding destroy_pass_def
  by (erule for_each_adds[rotated]) (rule call_destroy_not_update)

lemma lateUpdate_pass_adds: "lateUpdate_pass n h w = Inr w' \<Longrightarrow> adds (not_update_of e) w w'"
  unfolding lateUpdate_pass_def
  by (erule for_each_adds[rotated]) (rule call_lateUpdate_not_update)

lemma collide_pair_adds: "collide_pair n h e1 e2 w = Inr w' \<Longrightarrow> adds (not_update_of e) w w'"
  unfolding collide_pair_def
  by (auto split: if_splits option.splits sum.splits
      intro: adds_refl adds_trans[OF collidedWith_not_update collidedWith_not_update])

lemma collide_row_adds: "collide_row n h xs i w = Inr w' \<Longrightarrow> adds (not_update_of e) w w'"
  unfolding collide_row_def
  by (auto split: if_splits intro: adds_refl for_each_adds collide_pair_adds)

lemma detectCollisions_adds: "detectCollisions n h w = Inr w' \<Longrightarrow> adds (not_update_of e) w w'"
  unfolding detectCollisions_def
  by (rule for_each_adds) (rule collide_row_adds)

lemma lateUpdate_logged:
  "for_each as (call_lateUpdate n h) w = Inr w' \<Longrightarrow> e \<in> set as \<Longrightarrow>
   \<exists>evs. trace w' = trace w @ evs \<and> LateUpdated e \<in> set evs"
proof (induction as arbitrary: w)
  case Nil
  then show ?case by simp
next
  case (Cons a as)
  from Cons.prems(1) obtain w1 where a: "call_lateUpdate n h a w = Inr w1"
    and r: "for_each as (call_lateUpdate n h) w1 = Inr w'"
    by (auto split: sum.splits)
  have pre: "adds (\<lambda>ev. True) w1 w'"
    using r by (rule for_each_adds[rotated]) (auto intro: call_lateUpdate_adds)
  show ?case
  proof (cases "e = a")
    case True
    from a obtain evs1 where t1: "trace w1 = trace w @ LateUpdated a # evs1"
      using exec_adds[of n h _ "log (LateUpdated a) w" w1]
      unfolding call_lateUpdate_def adds_def by (auto simp: log_def)
    from pre obtain evs2 where "trace w' = trace w1 @ evs2" unfolding adds_def by auto
    with t1 True show ?thesis by simp
  next
    case False
    with Cons.prems(2) have "e \<in> set as" by simp
    from Cons.IH[OF r this] obtain evs2 where t2: "trace w' = trace w1 @ evs2"
      and in2: "LateUpdated e \<in> set evs2" by auto
    have "adds (\<lambda>ev. True) w w1" using a by (auto intro: call_lateUpdate_adds)
    then obtain evs1 where "trace w1 = trace w @ evs1" unfolding adds_def by auto
    with t2 in2 show ?thesis by simp
  qed
qed

subsection \<open>Identifiers come from the counter\<close>

lemma assigned_ids_append: "assigned_ids (xs @ ys) = assigned_ids xs @ assigned_ids ys"
  by (induction xs rule: assigned_ids.induct) simp_all

lemma counted_refl: "counted w w"
  by (simp add: counted_def)

lemma counted_trans: "counted w1 w2 \<Longrightarrow> counted w2 w3 \<Longrightarrow> counted w1 w3"
  unfolding counted_def by (auto simp: upt_split)

lemma counted_same: "count w' = count w \<Longrightarrow> trace w' = trace w \<Longrightarrow> counted w w'"
  by (simp add: counted_def)

lemma exec_counted: "exec n h acts w = Inr w' \<Longrightarrow> counted w w'"
  and addEntity_counted: "addEntity n h e w = Inr w' \<Longrightarrow> counted w w' \<and> count w < count w'"
proof (induction n h acts w and n h e w arbitrary: w' and w' rule: exec_addEntity.induct)
  case (1 n h w)
  then show ?case by (simp add: counted_refl)
next
  case (2 n h e acts w)
  have "counted w (map_entity e (\<lambda>ent. ent\<lparr> deleted := True \<rparr>) w)"
    by (rule counted_same) (simp_all add: map_entity_def)
  then show ?case using 2 by (auto intro: counted_trans)
next
  case (3 n h e b acts w)
  have "counted w (map_entity e (\<lambda>ent. ent\<lparr> hitbox := Some b \<rparr>) w)"
    by (rule counted_same) (simp_all add: map_entity_def)
  then show ?case using 3 by (auto intro: counted_trans)
next
  case (4 n h f acts w)
  have "counted w (w\<lparr> state := apply_state_op f (state w) \<rparr>)"
    by (rule counted_same) simp_all
  then show ?case using 4 by (auto intro: counted_trans)
next
  case (5 n h b cs acts w)
  from "5.prems" obtain w1 where
    a: "addEntity n h (fst (new_Entity b cs w)) (snd (new_Entity b cs w)) = Inr w1"
    and r: "exec n h acts w1 = Inr w'"
    by (auto split: sum.splits)
  have "counted w (snd (new_Entity b cs w))"
    by (rule counted_same) (simp_all add: new_Entity_def)
  moreover have "counted (snd (new_Entity b cs w)) w1" using "5.IH"(1)[OF a] by simp
  moreover have "counted w1 w'" using "5.IH"(2)[OF a r] .
  ultimately show ?case by (blast intro: counted_trans)
next
  case (6 h e w)
  then show ?case by simp
next
  case (7 n h e w)
  from "7.prems" obtain w1 where
    x: "exec n h (onSpawn h e (log (Spawned e) w)) (log (Spawned e) w) = Inr w1"
    and w': "w' = (map_entity e (\<lambda>ent. ent\<lparr> entityId := Some (count w1) \<rparr>)
                  (log (Assigned e (count w1)) w1))
                \<lparr> count := count w1 + 1, entities := entities w1 @ [e] \<rparr>"
    by (auto split: sum.splits)
  have c0: "counted w (log (Spawned e) w)"
    by (simp add: counted_def log_def assigned_ids_append)
  have c1: "counted (log (Spawned e) w) w1" using "7.IH"[OF x] .
  have c2: "counted w1 w'"
    unfolding w' counted_def by (simp add: log_def map_entity_def assigned_ids_append)
  have "counted w w'" using c0 c1 c2 by (blast intro: counted_trans)
  moreover have "count w < count w'"
    using c0 c1 unfolding counted_def w' by (simp add: log_def)
  ultimately show ?case by simp
qed

lemma add_all_counted:
  "for_each es (addEntity n h) w = Inr w' \<Longrightarrow> counted w w' \<and> count w + length es \<le> count w'"
proof (induction es arbitrary: w)
  case Nil
  then show ?case by (simp add: counted_refl)
next
  case (Cons e es)
  from Cons.prems obtain w1 where a: "addEntity n h e w = Inr w1"
    and r: "for_each es (addEntity n h) w1 = Inr w'"
    by (auto split: sum.splits)
  from addEntity_counted[OF a] Cons.IH[OF r] show ?case
    by (auto intro: counted_trans)
qed

subsection \<open>Calls of \<open>collidedWith\<close> in a collision pass\<close>

lemma collisions_append: "collisions (xs @ ys) = collisions xs @ collisions ys"
  by (simp add: collisions_def)

lemma hook_events_no_collisions: "list_all hook_event evs \<Longrightarrow> collisions evs = []"
proof (induction evs)
  case Nil
  then show ?case by (simp add: collisions_def)
next
  case (Cons ev evs)
  then show ?case by (cases ev) (simp_all add: collisions_def)
qed

lemma collidedWith_collisions:
  assumes "collidedWith n h a b w = Inr w'"
  shows "collisions (trace w') = collisions (trace w) @ [Collided a b]"
proof -
  from assms have "adds hook_event (log (Collided a b) w) w'"
    unfolding collidedWith_def by (rule exec_adds)
  then obtain evs where t: "trace w' = trace w @ Collided a b # evs" and hk: "list_all hook_event evs"
    unfolding adds_def by (auto simp: log_def)
  from hook_events_no_collisions[OF hk] show ?thesis
    unfolding t by (simp add: collisions_def)
qed

lemma collide_pair_collisions:
  assumes "collide_pair n h a b p = Inr p'"
  shows "collisions (trace p') =
           collisions (trace p) @
           (if \<not> is_deleted p b \<and> boxes_intersect h p a b then both_ways a b else [])"
proof (cases "is_deleted p b")
  case True
  with assms show ?thesis by (simp add: collide_pair_def)
next
  case False
  with assms obtain x y where x: "getHitboxFrom p a = Some x" and y: "getHitboxFrom p b = Some y"
    unfolding collide_pair_def by (auto split: option.splits)
  show ?thesis
  proof (cases "intersects h x y")
    case True
    with assms False x y obtain p1 where c1: "collidedWith n h a b p = Inr p1"
      and c2: "collidedWith n h b a p1 = Inr p'"
      unfolding collide_pair_def by (auto split: sum.splits)
    from collidedWith_collisions[OF c1] collidedWith_collisions[OF c2] True False x y
    show ?thesis by (simp add: boxes_intersect_def both_ways_def)
  next
    case no: False
    with assms False x y have "p' = p" unfolding collide_pair_def by simp
    with no x y show ?thesis by (simp add: boxes_intersect_def)
  qed
qed

lemma concat_map_concat:
  "concat (map f (concat xss)) = concat (map (\<lambda>xs. concat (map f xs)) xss)"
  by (induction xss) simp_all

lemma concat_index_pairs:
  "concat (map (\<lambda>ij. F (fst ij) (snd ij)) (index_pairs n)) =
   concat (map (\<lambda>i. concat (map (F i) [i + 1 ..< n])) [0 ..< n])"
  unfolding index_pairs_def
  by (simp add: concat_map_concat map_map comp_def)

lemma set_index_pairs: "set (index_pairs n) = {(i, j). i < j \<and> j < n}"
proof (rule set_eqI)
  fix p :: "nat \<times> nat"
  obtain i j where p: "p = (i, j)" by (cases p)
  show "p \<in> set (index_pairs n) \<longleftrightarrow> p \<in> {(i, j). i < j \<and> j < n}"
    unfolding p index_pairs_def by (auto simp: image_iff)
qed

lemma distinct_concat_map:
  assumes "distinct xs" and "\<And>x. distinct (f x)"
    and "\<And>x y. x \<noteq> y \<Longrightarrow> set (f x) \<inter> set (f y) = {}"
  shows "distinct (concat (map f xs))"
  using assms(1)
proof (induction xs)
  case Nil
  then show ?case by simp
next
  case (Cons x xs)
  have "set (f x) \<inter> set (f y) = {}" if "y \<in> set xs" for y
    using Cons.prems that assms(3)[of x y] by auto
  with Cons assms(2) show ?case by auto
qed

lemma distinct_index_pairs: "distinct (index_pairs n)"
  unfolding index_pairs_def
  by (rule distinct_concat_map) (auto simp: distinct_map inj_on_def)

lemma collide_row_collisions:
  assumes rs: "row_start n h w i = Inr r"
    and run: "collide_row n h (entities w) i r = Inr r'"
  shows "collisions (trace r') =
           collisions (trace r) @
           concat (map (\<lambda>j. if pair_fires n h w (i, j)
                              then both_ways (entities w ! i) (entities w ! j) else [])
                     [i + 1 ..< length (entities w)])"
proof (cases "is_deleted r (entities w ! i)")
  case True
  with run have "r' = r" by (simp add: collide_row_def)
  moreover have "\<not> pair_fires n h w (i, j)" for j
    using True rs by (simp add: pair_fires_def split: sum.splits)
  ultimately show ?thesis by simp
next
  case False
  with run have inner: "for_each [i + 1 ..< length (entities w)]
      (\<lambda>j. collide_pair n h (entities w ! i) (entities w ! j)) r = Inr r'"
    by (simp add: collide_row_def)
  show ?thesis
  proof (rule for_each_upt_collect[OF inner])
    fix j p p'
    assume "i + 1 \<le> j" and "j < length (entities w)"
      and pre: "for_each [i + 1 ..< j] (\<lambda>j. collide_pair n h (entities w ! i) (entities w ! j)) r = Inr p"
      and pair: "collide_pair n h (entities w ! i) (entities w ! j) p = Inr p'"
    have ps: "pair_start n h w i j = Inr p"
      using rs False pre by (simp add: pair_start_def)
    have "pair_fires n h w (i, j) \<longleftrightarrow>
        \<not> is_deleted p (entities w ! j) \<and> boxes_intersect h p (entities w ! i) (entities w ! j)"
      using rs ps False by (simp add: pair_fires_def)
    with collide_pair_collisions[OF pair]
    show "collisions (trace p') = collisions (trace p) @
        (if pair_fires n h w (i, j) then both_ways (entities w ! i) (entities w ! j) else [])"
      by simp
  qed
qed

lemma detectCollisions_collisions:
  assumes run: "detectCollisions n h w = Inr w'"
  shows "collisions (trace w') =
           collisions (trace w) @
           concat (map (\<lambda>ij. if pair_fires n h w ij
                               then both_ways (entities w ! fst ij) (entities w ! snd ij) else [])
                     (index_pairs (length (entities w))))"
proof -
  have "collisions (trace w') = collisions (trace w) @
      concat (map (\<lambda>i. concat (map (\<lambda>j. if pair_fires n h w (i, j)
                              then both_ways (entities w ! i) (entities w ! j) else [])
                     [i + 1 ..< length (entities w)])) [0 ..< length (entities w)])"
  proof (rule for_each_upt_collect[OF run[unfolded detectCollisions_def]])
    fix i r r'
    assume "for_each [0 ..< i] (collide_row n h (entities w)) w = Inr r"
      and "collide_row n h (entities w) i r = Inr r'"
    then show "collisions (trace r') = collisions (trace r) @
        concat (map (\<lambda>j. if pair_fires n h w (i, j)
                              then both_ways (entities w ! i) (entities w ! j) else [])
                     [i + 1 ..< length (entities w)])"
      by (intro collide_row_collisions) (simp_all add: row_start_def)
  qed
  then show ?thesis
    using concat_index_pairs[of "\<lambda>i j. if pair_fires n h w (i, j)
                              then both_ways (entities w ! i) (entities w ! j) else []"
        "length (entities w)"]
    by simp
qed

lemma pair_states:
  assumes run: "detectCollisions n h w = Inr w'"
    and ij: "i < j" "j < length (entities w)"
  shows "\<exists>r p. row_start n h w i = Inr r \<and> pair_start n h w i j = Inr p \<and>
           (is_deleted r (entities w ! i) \<longrightarrow> is_deleted p (entities w ! i))"
proof -
  from ij have i: "Suc i \<le> length (entities w)" by simp
  from for_each_upt_prefix[OF run[unfolded detectCollisions_def] _ i]
  obtain r1 where r1: "for_each [0 ..< Suc i] (collide_row n h (entities w)) w = Inr r1" by auto
  then obtain r where r: "for_each [0 ..< i] (collide_row n h (entities w)) w = Inr r"
    and row: "collide_row n h (entities w) i r = Inr r1"
    by (auto simp: for_each_append split: sum.splits)
  have rs: "row_start n h w i = Inr r" using r by (simp add: row_start_def)
  show ?thesis
  proof (cases "is_deleted r (entities w ! i)")
    case True
    with rs have "pair_start n h w i j = Inr r" by (simp add: pair_start_def)
    with rs True show ?thesis by simp
  next
    case False
    with row have inner: "for_each [i + 1 ..< length (entities w)]
        (\<lambda>k. collide_pair n h (entities w ! i) (entities w ! k)) r = Inr r1"
      by (simp add: collide_row_def)
    from ij have "i + 1 \<le> j" "j \<le> length (entities w)" by simp_all
    from for_each_upt_prefix[OF inner this] obtain p where
      p: "for_each [i + 1 ..< j] (\<lambda>k. collide_pair n h (entities w ! i) (entities w ! k)) r = Inr p"
      by auto
    with rs False have "pair_start n h w i j = Inr p" by (simp add: pair_start_def)
    with rs False show ?thesis by simp
  qed
qed

section \<open>The frame and the world\<close>

lemmas run_defs = call_update_def call_lateUpdate_def call_destroy_def collidedWith_def
  collide_pair_def collide_row_def detectCollisions_def isGameOver_def update_pass_def
  destroy_pass_def compact_def lateUpdate_pass_def update_front_def update_back_def update_def
  log_def is_deleted_def getHitboxFrom_def map_entity_def new_Entity_def add_new_def
  new_Game_def new_GameState_def HitboxComponent_def

lemmas scene_defs = scene2_def scene3_def self_destruct_def only_destructs_def no_hooks_def
  aabb_def boxA_def boxB_def boxC_def

lemmas restart_defs = game_over_run_def small_config_def lose_all_lives_def initEntities_def
  restart_def listener_def keyup_def WORLD_WIDTH_def WORLD_HEIGHT_def loseLife_simps

text \<open>The two example worlds are what \<open>addEntity\<close> builds from a new game.\<close>

lemma scene2_built: "scene [boxA, boxB] = Inr scene2"
  by (simp add: scene_def scene2_def no_hooks_def run_defs numeral_eq_Suc)

lemma scene3_built: "scene [boxA, boxB, boxC] = Inr scene3"
  by (simp add: scene_def scene3_def no_hooks_def run_defs numeral_eq_Suc)

subsection \<open>Deleted entities and the end of a frame\<close>

text \<open>
  C1, as the code has it. An entity whose \<open>deleted\<close> flag is set by a collision
  callback is still in the live collection when \<open>update\<close> returns: the collection is
  compacted before the collision pass and not again in that frame. Here the player and
  the cat of the scenario overlap and each deletes itself on collision.
\<close>

theorem deleted_after_frame_counterexample:
  "(case update 0 self_destruct scene2 of
      Inl err \<Rightarrow> False
    | Inr w' \<Rightarrow>
        \<not> isGameOver scene2 \<and> entities w' = [0, 1] \<and> is_deleted w' 0 \<and> is_deleted w' 1)"
  by (simp add: scene_defs run_defs upt_rec)

text \<open>
  C1, amended. When \<open>update\<close> returns after a full cycle, the live collection contains
  no entity whose \<open>deleted\<close> flag was true when that cycle compacted the collection,
  which it does after the update and destroy passes: \<open>u\<close> is the world at that moment
  and \<open>w2\<close> the world right after, whose collection is that of \<open>u\<close> without the
  deleted entities. The collision and late-update passes take nothing out of the
  collection: the final collection is that of \<open>w2\<close> with the entities added since at
  its end, so an entity of \<open>w2\<close> whose flag is set during those passes is still in the
  collection when \<open>update\<close> returns.
\<close>

theorem deleted_after_frame:
  assumes run: "update n h w = Inr w'" and live: "\<not> isGameOver w"
  shows "\<exists>w1 u w2 new.
           update_pass n h w = Inr w1 \<and> destroy_pass n h w1 = Inr u \<and> w2 = compact u \<and>
           update_front n h w = Inr w2 \<and> update_back n h w2 = Inr w' \<and>
           entities w2 = filter (\<lambda>e. \<not> is_deleted u e) (entities u) \<and>
           list_all (\<lambda>e. \<not> is_deleted u e) (entities w') \<and>
           list_all (\<lambda>e. \<not> is_deleted w2 e) (entities w2) \<and>
           list_all (\<lambda>e. \<not> is_deleted w2 e) (entities w') \<and>
           entities w' = entities w2 @ new"
proof -
  from run live obtain w2 where front: "update_front n h w = Inr w2"
    and bk: "update_back n h w2 = Inr w'"
    by (auto simp: update_def split: sum.splits)
  from front obtain w1 u where up: "update_pass n h w = Inr w1"
    and de: "destroy_pass n h w1 = Inr u" and w2: "w2 = compact u"
    by (auto simp: update_front_def split: sum.splits)
  have same: "is_deleted w2 e = is_deleted u e" for e
    unfolding w2 by (simp add: compact_def is_deleted_def)
  have kept: "entities w2 = filter (\<lambda>e. \<not> is_deleted u e) (entities u)"
    unfolding w2 by (simp add: compact_def)
  have clean: "list_all (\<lambda>e. \<not> is_deleted w2 e) (entities w2)"
    unfolding w2 by (rule compact_clean)
  have grown: "ext w2 w'" using bk by (rule update_back_ext)
  then have fin: "list_all (\<lambda>e. \<not> is_deleted w2 e) (entities w')"
    using clean by (rule ext_not_deleted_before)
  then have fin_u: "list_all (\<lambda>e. \<not> is_deleted u e) (entities w')"
    by (simp add: same)
  from grown obtain new where app: "entities w' = entities w2 @ new"
    unfolding ext_def by blast
  from up de w2 front bk kept fin_u clean fin app show ?thesis by blast
qed

text \<open>
  An instance: entity 1 is deleted in the update pass and is gone when \<open>update\<close>
  returns; entity 0 is deleted in the collision pass and is still there.
\<close>

theorem deleted_after_frame_witness:
  "\<not> isl (update 0 drops_in_update scene3) \<and> \<not> isGameOver scene3 \<and>
   (case update_pass 0 drops_in_update scene3 of
      Inl err \<Rightarrow> False
    | Inr w1 \<Rightarrow>
        (case destroy_pass 0 drops_in_update w1 of
           Inl err \<Rightarrow> False
         | Inr u \<Rightarrow> entities u = [0, 1, 2] \<and> is_deleted u 1 \<and> \<not> is_deleted u 0)) \<and>
   entities (projr (update 0 drops_in_update scene3)) = [0, 2] \<and>
   is_deleted (projr (update 0 drops_in_update scene3)) 0 \<and>
   (\<exists>w1 u w2 new.
      update_pass 0 drops_in_update scene3 = Inr w1 \<and>
      destroy_pass 0 drops_in_update w1 = Inr u \<and> w2 = compact u \<and>
      list_all (\<lambda>e. \<not> is_deleted u e) (entities (projr (update 0 drops_in_update scene3))) \<and>
      entities (projr (update 0 drops_in_update scene3)) = entities w2 @ new)"
proof -
  define r where "r = update 0 drops_in_update scene3"
  have ev: "map_sum id (\<lambda>w. (entities w, is_deleted w 0)) r = Inr ([0, 2], True)"
    unfolding r_def by (simp add: drops_in_update_def scene_defs run_defs upt_rec)
  then have ok: "\<not> isl r" by (cases r) simp_all
  then have res: "r = Inr (projr r)" by (cases r) simp_all
  from ev res have fin: "entities (projr r) = [0, 2]" "is_deleted (projr r) 0"
    by (cases r; simp)+
  have live: "\<not> isGameOver scene3"
    by (simp add: isGameOver_def scene3_def new_GameState_def)
  have at_compaction:
    "(case update_pass 0 drops_in_update scene3 of
        Inl err \<Rightarrow> False
      | Inr w1 \<Rightarrow>
          (case destroy_pass 0 drops_in_update w1 of
             Inl err \<Rightarrow> False
           | Inr u \<Rightarrow> entities u = [0, 1, 2] \<and> is_deleted u 1 \<and> \<not> is_deleted u 0))"
    by (simp add: drops_in_update_def scene_defs run_defs upt_rec)
  have run: "update 0 drops_in_update scene3 = Inr (projr r)"
    using res by (simp only: r_def)
  from deleted_after_frame[OF run live]
  have "\<exists>w1 u w2 new.
      update_pass 0 drops_in_update scene3 = Inr w1 \<and>
      destroy_pass 0 drops_in_update w1 = Inr u \<and> w2 = compact u \<and>
      list_all (\<lambda>e. \<not> is_deleted u e) (entities (projr r)) \<and>
      entities (projr r) = entities w2 @ new"
    by blast
  with ok live at_compaction fin show ?thesis unfolding r_def by blast
qed

subsection \<open>Entities added during the update pass\<close>

text \<open>
  C10, as the code has it. An entity that a hook adds during the update pass and that is
  marked deleted before the pass ends is destroyed and removed by the compaction of the
  same frame: it takes part in no collision and gets no \<open>lateUpdate\<close>.
\<close>

theorem added_during_update_pass_counterexample:
  "(case update_pass 1 spawn_and_drop scene2 of
      Inl err \<Rightarrow> False
    | Inr w1 \<Rightarrow> entities scene2 = [0, 1] \<and> entities w1 = [0, 1, 2]) \<and>
   (case update 1 spawn_and_drop scene2 of
      Inl err \<Rightarrow> False
    | Inr w' \<Rightarrow> \<not> isGameOver scene2 \<and> entities w' = [0, 1] \<and>
        LateUpdated 2 \<notin> set (trace w') \<and> Collided 0 2 \<notin> set (trace w') \<and>
        Collided 2 0 \<notin> set (trace w') \<and> Collided 1 2 \<notin> set (trace w') \<and>
        Collided 2 1 \<notin> set (trace w'))"
  by (simp add: spawn_and_drop_def scene_defs boxC_def run_defs numeral_eq_Suc upt_rec)

text \<open>
  C10, amended. Let \<open>e\<close> be an entity that is in the live collection after the update
  pass of a frame and was not in it when the frame began, and that is not marked deleted
  when the frame compacts the collection. Then \<open>update\<close> is not called on \<open>e\<close> in
  that frame, \<open>e\<close> is in the collection that the collision pass of the frame copies,
  and \<open>lateUpdate\<close> is called on \<open>e\<close> in that frame.
\<close>

theorem added_during_update_pass:
  assumes run: "update n h w = Inr w'" and live: "\<not> isGameOver w"
    and up: "update_pass n h w = Inr w1"
    and de: "destroy_pass n h w1 = Inr w2"
    and added: "e \<in> set (entities w1)" "e \<notin> set (entities w)"
    and kept: "\<not> is_deleted w2 e"
  shows "\<exists>w3 evs. detectCollisions n h (compact w2) = Inr w3 \<and> e \<in> set (entities (compact w2)) \<and>
           lateUpdate_pass n h w3 = Inr w' \<and>
           trace w' = trace w @ evs \<and> Updated e \<notin> set evs \<and> LateUpdated e \<in> set evs"
proof -
  from run live up de obtain w3 where co: "detectCollisions n h (compact w2) = Inr w3"
    and la: "lateUpdate_pass n h w3 = Inr w'"
    by (auto simp: update_def update_front_def update_back_def split: sum.splits)
  have "ext w1 w2" using de by (rule destroy_pass_ext)
  with added(1) have "e \<in> set (entities w2)" unfolding ext_def by auto
  with kept have in_c: "e \<in> set (entities (compact w2))" by (simp add: compact_def)
  have "ext (compact w2) w3" using co by (rule detectCollisions_ext)
  with in_c have in3: "e \<in> set (entities w3)" unfolding ext_def by auto
  from la in3 obtain evs4 where t4: "trace w' = trace w3 @ evs4" and l4: "LateUpdated e \<in> set evs4"
    unfolding lateUpdate_pass_def by (blast dest: lateUpdate_logged)
  have a1: "adds (not_update_of e) w w1" using up added(2) by (rule update_pass_adds)
  have a2: "adds (not_update_of e) w1 w2" using de by (rule destroy_pass_adds)
  have a3: "adds (not_update_of e) w2 (compact w2)" by (rule adds_same_trace) (simp add: compact_def)
  have a4: "adds (not_update_of e) (compact w2) w3" using co by (rule detectCollisions_adds)
  have a5: "adds (not_update_of e) w3 w'" using la by (rule lateUpdate_pass_adds)
  have "adds (not_update_of e) w w3"
    using a1 a2 a3 a4 by (blast intro: adds_trans)
  then obtain evs3 where t3: "trace w3 = trace w @ evs3" and n3: "list_all (not_update_of e) evs3"
    unfolding adds_def by auto
  from a5 t4 have n4: "list_all (not_update_of e) evs4" unfolding adds_def by auto
  have "trace w' = trace w @ (evs3 @ evs4)" using t3 t4 by simp
  moreover have "Updated e \<notin> set (evs3 @ evs4)"
    using n3 n4 by (auto simp: list_all_iff not_update_of_def)
  moreover have "LateUpdated e \<in> set (evs3 @ evs4)" using l4 by simp
  ultimately show ?thesis using co la in_c by blast
qed

theorem added_during_update_pass_witness:
  "\<not> isl (update 1 spawner scene2) \<and> \<not> isGameOver scene2 \<and>
   \<not> isl (update_pass 1 spawner scene2) \<and>
   \<not> isl (destroy_pass 1 spawner (projr (update_pass 1 spawner scene2))) \<and>
   2 \<in> set (entities (projr (update_pass 1 spawner scene2))) \<and>
   2 \<notin> set (entities scene2) \<and>
   (\<exists>evs. trace (projr (update 1 spawner scene2)) = trace scene2 @ evs \<and>
      Updated 2 \<notin> set evs \<and> LateUpdated 2 \<in> set evs) \<and>
   collisions (trace (projr (update 1 spawner scene2)))
     = [Collided 0 1, Collided 1 0, Collided 0 2, Collided 2 0, Collided 1 2, Collided 2 1]"
proof -
  let ?w1 = "projr (update_pass 1 spawner scene2)"
  let ?w2 = "projr (destroy_pass 1 spawner ?w1)"
  let ?w' = "projr (update 1 spawner scene2)"
  have ok: "\<not> isl (update 1 spawner scene2)"
    by (simp add: spawner_def scene_defs boxC_def run_defs numeral_eq_Suc upt_rec)
  then have run: "update 1 spawner scene2 = Inr ?w'"
    by (cases "update 1 spawner scene2") simp_all
  have live: "\<not> isGameOver scene2"
    by (simp add: isGameOver_def scene2_def new_GameState_def)
  have ok1: "\<not> isl (update_pass 1 spawner scene2)"
    by (simp add: spawner_def scene_defs boxC_def run_defs numeral_eq_Suc upt_rec)
  then have up: "update_pass 1 spawner scene2 = Inr ?w1"
    by (cases "update_pass 1 spawner scene2") simp_all
  have ok2: "\<not> isl (destroy_pass 1 spawner ?w1)"
    by (simp add: spawner_def scene_defs boxC_def run_defs numeral_eq_Suc upt_rec)
  then have de: "destroy_pass 1 spawner ?w1 = Inr ?w2"
    by (cases "destroy_pass 1 spawner ?w1") simp_all
  have a1: "2 \<in> set (entities ?w1)"
    by (simp add: spawner_def scene_defs boxC_def run_defs numeral_eq_Suc upt_rec)
  have a2: "2 \<notin> set (entities scene2)" by (simp add: scene2_def)
  have kept: "\<not> is_deleted ?w2 2"
    by (simp add: spawner_def scene_defs boxC_def run_defs numeral_eq_Suc upt_rec)
  have col: "collisions (trace ?w')
     = [Collided 0 1, Collided 1 0, Collided 0 2, Collided 2 0, Collided 1 2, Collided 2 1]"
    by (simp add: spawner_def scene_defs boxC_def run_defs numeral_eq_Suc upt_rec collisions_def)
  from added_during_update_pass[OF run live up de a1 a2 kept]
  have "\<exists>evs. trace ?w' = trace scene2 @ evs \<and> Updated 2 \<notin> set evs \<and> LateUpdated 2 \<in> set evs"
    by blast
  with ok live ok1 ok2 a1 a2 col show ?thesis by blast
qed

subsection \<open>Adding an entity\<close>

lemma addEntity_unfold:
  assumes "addEntity n h e w = Inr w'"
  shows "\<exists>m w1. n = Suc m \<and>
           exec m h (onSpawn h e (log (Spawned e) w)) (log (Spawned e) w) = Inr w1 \<and>
           w' = (map_entity e (\<lambda>ent. ent\<lparr> entityId := Some (count w1) \<rparr>)
                   (log (Assigned e (count w1)) w1))
                 \<lparr> count := count w1 + 1, entities := entities w1 @ [e] \<rparr>"
proof (cases n)
  case 0
  with assms show ?thesis by simp
next
  case (Suc m)
  with assms show ?thesis by (auto split: sum.splits)
qed

text \<open>
  C4, as the code has it. \<open>addEntity\<close> calls \<open>spawn\<close> before it assigns the
  identifier. A spawn hook that looks at the identifier of its entity finds none (and
  here takes a life to show it), and the call of \<open>spawn\<close> precedes the assignment in
  the trace; in the order of the specification the hook would find the identifier and
  all three lives would be left.
\<close>

theorem addEntity_order_counterexample:
  "(case addEntity 1 probe_id 0 one_built of
      Inl err \<Rightarrow> False
    | Inr w' \<Rightarrow> trace w' = [Spawned 0, Assigned 0 1] \<and> lives (state w') = 2) \<and>
   (case addEntity_as_specified 1 probe_id 0 one_built of
      Inl err \<Rightarrow> False
    | Inr w' \<Rightarrow> trace w' = [Assigned 0 1, Spawned 0] \<and> lives (state w') = 3)"
  by (simp add: one_built_def probe_id_def addEntity_as_specified_def no_hooks_def run_defs
      numeral_eq_Suc Let_def loseLife_simps)

text \<open>
  C4, amended. Every call of \<open>addEntity(e)\<close> that returns has first called
  \<open>e.spawn(this)\<close>, in the world as it was before the call (the spawn hook runs
  before anything else changes), then assigned to \<open>e\<close> the value the counter has after
  the spawn hook and advanced the counter by one, then appended \<open>e\<close> to the live
  collection.
\<close>

theorem addEntity_order:
  assumes "addEntity n h e w = Inr w'"
  shows "\<exists>m w1 evs. n = Suc m \<and>
           exec m h (onSpawn h e (log (Spawned e) w)) (log (Spawned e) w) = Inr w1 \<and>
           trace w1 = trace w @ Spawned e # evs \<and>
           trace w' = trace w1 @ [Assigned e (count w1)] \<and>
           count w' = count w1 + 1 \<and>
           entities w' = entities w1 @ [e] \<and>
           (if e < length (heap w1) then entityId (heap w' ! e) = Some (count w1)
            else heap w' = heap w1)"
proof -
  from addEntity_unfold[OF assms] obtain m w1 where n: "n = Suc m"
    and x: "exec m h (onSpawn h e (log (Spawned e) w)) (log (Spawned e) w) = Inr w1"
    and w': "w' = (map_entity e (\<lambda>ent. ent\<lparr> entityId := Some (count w1) \<rparr>)
                  (log (Assigned e (count w1)) w1))
                \<lparr> count := count w1 + 1, entities := entities w1 @ [e] \<rparr>"
    by blast
  from exec_adds[OF x] obtain evs where "trace w1 = trace w @ Spawned e # evs"
    unfolding adds_def by (auto simp: log_def)
  with n x show ?thesis
    unfolding w' by (auto simp: log_def map_entity_def list_update_beyond)
qed

theorem addEntity_order_witness:
  "\<not> isl (addEntity 1 probe_id 0 one_built) \<and>
   (\<exists>m w1 evs. (1::nat) = Suc m \<and>
      exec m probe_id (onSpawn probe_id 0 (log (Spawned 0) one_built)) (log (Spawned 0) one_built) = Inr w1 \<and>
      trace w1 = trace one_built @ Spawned 0 # evs \<and>
      trace (projr (addEntity 1 probe_id 0 one_built)) = trace w1 @ [Assigned 0 (count w1)] \<and>
      count (projr (addEntity 1 probe_id 0 one_built)) = count w1 + 1 \<and>
      entities (projr (addEntity 1 probe_id 0 one_built)) = entities w1 @ [0] \<and>
      (if 0 < length (heap w1)
       then entityId (heap (projr (addEntity 1 probe_id 0 one_built)) ! 0) = Some (count w1)
       else heap (projr (addEntity 1 probe_id 0 one_built)) = heap w1))"
proof -
  have ok: "\<not> isl (addEntity 1 probe_id 0 one_built)"
    by (simp add: one_built_def probe_id_def no_hooks_def run_defs numeral_eq_Suc)
  then have run: "addEntity 1 probe_id 0 one_built = Inr (projr (addEntity 1 probe_id 0 one_built))"
    by (cases "addEntity 1 probe_id 0 one_built") simp_all
  from addEntity_order[OF run] ok show ?thesis by blast
qed

subsection \<open>Identifiers\<close>

lemma exec_ids_kept:
  "exec n h acts w = Inr w' \<Longrightarrow> r < length (heap w) \<Longrightarrow>
     entityId (heap w' ! r) = entityId (heap w ! r)"
  and addEntity_ids_kept:
  "addEntity n h e w = Inr w' \<Longrightarrow> r < length (heap w) \<Longrightarrow> r \<noteq> e \<Longrightarrow>
     entityId (heap w' ! r) = entityId (heap w ! r)"
proof (induction n h acts w and n h e w arbitrary: w' and w' rule: exec_addEntity.induct)
  case (1 n h w)
  then show ?case by simp
next
  case (2 n h e acts w)
  let ?w1 = "map_entity e (\<lambda>ent. ent\<lparr> deleted := True \<rparr>) w"
  have "entityId (heap ?w1 ! r) = entityId (heap w ! r)"
    using "2.prems"(2) by (cases "r = e") (simp_all add: map_entity_def)
  moreover have "r < length (heap ?w1)" using "2.prems"(2) by (simp add: map_entity_def)
  ultimately show ?case using "2.IH"[of w'] "2.prems"(1) by simp
next
  case (3 n h e b acts w)
  let ?w1 = "map_entity e (\<lambda>ent. ent\<lparr> hitbox := Some b \<rparr>) w"
  have "entityId (heap ?w1 ! r) = entityId (heap w ! r)"
    using "3.prems"(2) by (cases "r = e") (simp_all add: map_entity_def)
  moreover have "r < length (heap ?w1)" using "3.prems"(2) by (simp add: map_entity_def)
  ultimately show ?case using "3.IH"[of w'] "3.prems"(1) by simp
next
  case (4 n h f acts w)
  then show ?case by simp
next
  case (5 n h b cs acts w)
  from "5.prems" obtain w1 where
    a: "addEntity n h (fst (new_Entity b cs w)) (snd (new_Entity b cs w)) = Inr w1"
    and x: "exec n h acts w1 = Inr w'"
    by (auto split: sum.splits)
  let ?w0 = "snd (new_Entity b cs w)"
  have r0: "r < length (heap ?w0)" and ne: "r \<noteq> fst (new_Entity b cs w)"
    using "5.prems"(2) by (simp_all add: new_Entity_def)
  have e0: "entityId (heap ?w0 ! r) = entityId (heap w ! r)"
    using "5.prems"(2) by (simp add: new_Entity_def nth_append)
  have e1: "entityId (heap w1 ! r) = entityId (heap ?w0 ! r)"
    using "5.IH"(1)[OF a r0 ne] .
  have "r < length (heap w1)"
    using ext_add_heap_len[OF addEntity_ext_add[OF a]] r0 by simp
  from "5.IH"(2)[OF a x this] e0 e1 show ?case by simp
next
  case (6 h e w)
  then show ?case by simp
next
  case (7 n h e w)
  from "7.prems"(1) obtain w1 where
    x: "exec n h (onSpawn h e (log (Spawned e) w)) (log (Spawned e) w) = Inr w1"
    and w': "w' = (map_entity e (\<lambda>ent. ent\<lparr> entityId := Some (count w1) \<rparr>)
                  (log (Assigned e (count w1)) w1))
                \<lparr> count := count w1 + 1, entities := entities w1 @ [e] \<rparr>"
    by (auto split: sum.splits)
  have "r < length (heap (log (Spawned e) w))" using "7.prems"(2) by (simp add: log_def)
  from "7.IH"[OF x this] have "entityId (heap w1 ! r) = entityId (heap w ! r)"
    by (simp add: log_def)
  then show ?case
    unfolding w' using "7.prems"(3) by (simp add: map_entity_def log_def)
qed

lemma addEntity_id:
  assumes "addEntity n h e w = Inr w'" and "e < length (heap w)"
  shows "\<exists>k. entityId (heap w' ! e) = Some k \<and> count w \<le> k \<and> k < count w'"
proof -
  from addEntity_unfold[OF assms(1)] obtain m w1 where
    x: "exec m h (onSpawn h e (log (Spawned e) w)) (log (Spawned e) w) = Inr w1"
    and w': "w' = (map_entity e (\<lambda>ent. ent\<lparr> entityId := Some (count w1) \<rparr>)
                  (log (Assigned e (count w1)) w1))
                \<lparr> count := count w1 + 1, entities := entities w1 @ [e] \<rparr>"
    by blast
  have "length (heap w) \<le> length (heap w1)"
    using ext_heap_len[OF exec_ext[OF x]] by (simp add: log_def)
  with assms(2) have "entityId (heap w' ! e) = Some (count w1)"
    unfolding w' by (simp add: map_entity_def log_def)
  moreover have "count w \<le> count w1"
    using exec_counted[OF x] by (simp add: counted_def log_def)
  moreover have "count w' = count w1 + 1" unfolding w' by simp
  ultimately show ?thesis by simp
qed

lemma add_all_ids_kept:
  "for_each es (addEntity n h) w = Inr w' \<Longrightarrow> r < length (heap w) \<Longrightarrow> r \<notin> set es \<Longrightarrow>
     entityId (heap w' ! r) = entityId (heap w ! r)"
proof (induction es arbitrary: w)
  case Nil
  then show ?case by simp
next
  case (Cons e es)
  from Cons.prems(1) obtain w1 where a: "addEntity n h e w = Inr w1"
    and rest: "for_each es (addEntity n h) w1 = Inr w'"
    by (auto split: sum.splits)
  from Cons.prems(3) have ne: "r \<noteq> e" and nin: "r \<notin> set es" by simp_all
  have "r < length (heap w1)"
    using ext_add_heap_len[OF addEntity_ext_add[OF a]] Cons.prems(2) by simp
  from Cons.IH[OF rest this nin] addEntity_ids_kept[OF a Cons.prems(2) ne]
  show ?case by simp
qed

lemma add_all_ids:
  "for_each es (addEntity n h) w = Inr w' \<Longrightarrow> distinct es \<Longrightarrow>
     list_all (\<lambda>e. e < length (heap w)) es \<Longrightarrow>
     \<exists>ks. map (\<lambda>e. entityId (heap w' ! e)) es = map Some ks \<and> sorted_wrt (<) ks \<and>
          list_all (\<lambda>k. count w \<le> k \<and> k < count w') ks"
proof (induction es arbitrary: w)
  case Nil
  then show ?case by simp
next
  case (Cons e es)
  from Cons.prems(1) obtain w1 where a: "addEntity n h e w = Inr w1"
    and rest: "for_each es (addEntity n h) w1 = Inr w'"
    by (auto split: sum.splits)
  from Cons.prems(2) have d: "distinct es" and nin: "e \<notin> set es" by simp_all
  from Cons.prems(3) have ve: "e < length (heap w)"
    and ves: "list_all (\<lambda>e. e < length (heap w)) es" by simp_all
  have len: "length (heap w) \<le> length (heap w1)"
    using ext_add_heap_len[OF addEntity_ext_add[OF a]] .
  have ves1: "list_all (\<lambda>e. e < length (heap w1)) es"
    using ves len by (auto simp: list_all_iff)
  from Cons.IH[OF rest d ves1] obtain ks where
    ks: "map (\<lambda>e. entityId (heap w' ! e)) es = map Some ks" and so: "sorted_wrt (<) ks"
    and rg: "list_all (\<lambda>k. count w1 \<le> k \<and> k < count w') ks"
    by blast
  from addEntity_id[OF a ve] obtain k where
    k: "entityId (heap w1 ! e) = Some k" and k1: "count w \<le> k" and k2: "k < count w1"
    by blast
  have "e < length (heap w1)" using ve len by simp
  from add_all_ids_kept[OF rest this nin] k have ke: "entityId (heap w' ! e) = Some k" by simp
  have c1: "count w1 \<le> count w'" using add_all_counted[OF rest] by simp
  have "map (\<lambda>e. entityId (heap w' ! e)) (e # es) = map Some (k # ks)"
    using ke ks by simp
  moreover have "sorted_wrt (<) (k # ks)"
    using so rg k2 by (auto simp: list_all_iff)
  moreover have "list_all (\<lambda>k. count w \<le> k \<and> k < count w') (k # ks)"
    using rg k1 k2 c1 by (auto simp: list_all_iff)
  ultimately show ?case by blast
qed

text \<open>
  C8. For any sequence of \<open>addEntity\<close> calls on one world, whatever the hooks do, the
  identifiers assigned during the calls (those of entities that spawn hooks add
  included) are, in the order of assignment, the values the counter runs through:
  strictly increasing, without repeats, at least one for each call. The counter of a new
  \<open>Game\<close> starts at 1. When the calls are for different entities that were built
  before, the identifiers the entities carry afterwards are strictly increasing in the
  order of the calls, whatever the order in which the entities were built (the order of
  their references).
\<close>

theorem ids_strictly_increasing:
  assumes run: "for_each es (addEntity n h) w = Inr w'"
  shows "assigned_ids (trace w') = assigned_ids (trace w) @ [count w ..< count w'] \<and>
         sorted_wrt (<) [count w ..< count w'] \<and> distinct [count w ..< count w'] \<and>
         length es \<le> length [count w ..< count w'] \<and>
         (distinct es \<and> list_all (\<lambda>e. e < length (heap w)) es \<longrightarrow>
            (\<exists>ks. map (\<lambda>e. entityId (heap w' ! e)) es = map Some ks \<and> sorted_wrt (<) ks \<and>
                  list_all (\<lambda>k. count w \<le> k \<and> k < count w') ks)) \<and>
         count new_Game = 1"
proof -
  have "counted w w'" and "count w + length es \<le> count w'"
    using add_all_counted[OF run] by simp_all
  then have "assigned_ids (trace w') = assigned_ids (trace w) @ [count w ..< count w']"
    and "length es \<le> length [count w ..< count w']"
    by (simp_all add: counted_def)
  moreover have "\<exists>ks. map (\<lambda>e. entityId (heap w' ! e)) es = map Some ks \<and> sorted_wrt (<) ks \<and>
                  list_all (\<lambda>k. count w \<le> k \<and> k < count w') ks"
    if "distinct es" and "list_all (\<lambda>e. e < length (heap w)) es"
    using add_all_ids[OF run that] .
  ultimately show ?thesis by (simp add: new_Game_def)
qed

theorem ids_strictly_increasing_witness:
  "\<not> isl (for_each [2, 0, 1] (addEntity 1 no_hooks) three_built) \<and>
   distinct [2, 0, 1 :: nat] \<and> list_all (\<lambda>e. e < length (heap three_built)) [2, 0, 1] \<and>
   assigned_ids (trace (projr (for_each [2, 0, 1] (addEntity 1 no_hooks) three_built))) = [1, 2, 3] \<and>
   map entityId (heap (projr (for_each [2, 0, 1] (addEntity 1 no_hooks) three_built)))
     = [Some 2, Some 3, Some 1]"
proof -
  define r where "r = for_each [2, 0, 1] (addEntity 1 no_hooks) three_built"
  have ev: "map_sum id (\<lambda>w. (count w, map entityId (heap w))) r = Inr (4, [Some 2, Some 3, Some 1])"
    unfolding r_def by (simp add: three_built_def no_hooks_def run_defs numeral_eq_Suc)
  then have ok: "\<not> isl r" by (cases r) simp_all
  then have res: "r = Inr (projr r)" by (cases r) simp_all
  from ev res have c: "count (projr r) = 4"
    and ids: "map entityId (heap (projr r)) = [Some 2, Some 3, Some 1]"
    by (cases r; simp)+
  have d: "distinct [2, 0, 1 :: nat]" by simp
  have b: "list_all (\<lambda>e. e < length (heap three_built)) [2, 0, 1]"
    by (simp add: three_built_def new_Entity_def new_Game_def)
  have t0: "assigned_ids (trace three_built) = []" and c0: "count three_built = 1"
    by (simp_all add: three_built_def new_Entity_def new_Game_def)
  have run: "for_each [2, 0, 1] (addEntity 1 no_hooks) three_built = Inr (projr r)"
    using res by (simp only: r_def)
  have "assigned_ids (trace (projr r)) =
          assigned_ids (trace three_built) @ [count three_built ..< count (projr r)]"
    using ids_strictly_increasing[OF run] by (rule conjunct1)
  then have a: "assigned_ids (trace (projr r)) = [1, 2, 3]"
    unfolding t0 c0 c by (simp add: upt_rec)
  from ok d b a ids show ?thesis unfolding r_def by blast
qed

subsection \<open>Game over\<close>

lemma update_game_over:
  "isGameOver w \<Longrightarrow> update n h w = Inr (w\<lparr> listeners := listeners w @ [False] \<rparr>)"
  by (simp add: update_def)

text \<open>
  C7. While the lives are at most 0, every call of \<open>update\<close> returns the world as it
  was but for one more registered key listener: the entities, their flags and hitboxes,
  the collection, the counter and the game state are unchanged and no hook is called
  (the trace is the same), so there is no update, destruction, compaction, collision
  detection or late update. This holds for any number of calls in a row.
\<close>

theorem game_over_gating:
  assumes "isGameOver w"
  shows "updates k n h w = Inr (w\<lparr> listeners := listeners w @ replicate k False \<rparr>)"
  using assms
proof (induction k arbitrary: w)
  case 0
  then show ?case by simp
next
  case (Suc k)
  let ?w1 = "w\<lparr> listeners := listeners w @ [False] \<rparr>"
  have over: "isGameOver ?w1" using Suc.prems by (simp add: isGameOver_def)
  have "updates (Suc k) n h w = updates k n h ?w1"
    using Suc.prems by (simp add: update_game_over)
  also have "\<dots> = Inr (?w1\<lparr> listeners := listeners ?w1 @ replicate k False \<rparr>)"
    using over by (rule Suc.IH)
  finally show ?case by (simp add: replicate_app_Cons_same)
qed

theorem game_over_gating_witness:
  "isGameOver game_over_scene \<and>
   updates 3 0 self_destruct game_over_scene =
     Inr (game_over_scene\<lparr> listeners := [False, False, False] \<rparr>) \<and>
   lives (state game_over_scene) = 0"
  using game_over_gating[of game_over_scene 3 0 self_destruct]
  by (simp add: game_over_scene_def lose_all_lives_def isGameOver_def scene2_def
      numeral_eq_Suc loseLife_simps new_GameState_def)

text \<open>
  C2, at the failing input. A game is set up with the small configuration (entities 0,
  1, 2), the last life is lost and \<open>update\<close> is called twice; each call registers a
  listener with a \<open>breakCircuit\<close> of its own. One release of Space then runs the
  restart twice: the first listener destroys 0, 1, 2 and builds 3, 4, 5, the second
  destroys 3, 4, 5 and builds 6, 7, 8. With a single call of \<open>update\<close>, two releases
  of Space restart once.
\<close>

theorem restart_runs_once_per_listener:
  "(case game_over_run 2 [''Space''] of
      Inl err \<Rightarrow> False
    | Inr w \<Rightarrow> destroyed (trace w) = [0, 1, 2, 3, 4, 5] \<and> entities w = [6, 7, 8] \<and>
               count w = 10 \<and> listeners w = [True, True] \<and> lives (state w) = 3) \<and>
   (case game_over_run 1 [''Space'', ''Space''] of
      Inl err \<Rightarrow> False
    | Inr w \<Rightarrow> destroyed (trace w) = [0, 1, 2] \<and> entities w = [3, 4, 5] \<and>
               count w = 7 \<and> listeners w = [True] \<and> lives (state w) = 3)"
  by (simp add: restart_defs no_hooks_def run_defs numeral_eq_Suc upt_rec)

subsection \<open>The collision pass\<close>

text \<open>
  C3, at the failing input. Three entities overlap one another and entity 0 deletes
  itself when its hitbox is told of a collision. After the first callback of the pair
  (0, 1) entity 0 is deleted, yet the pair (0, 2), which comes later in the same pass,
  is evaluated and both its callbacks run: the flag of the first entity of a pair is
  read once, before the inner loop.
\<close>

theorem deleted_outer_entity_still_collides:
  "(case collidedWith 0 (only_destructs 0) 0 1 scene3 of
      Inl err \<Rightarrow> False
    | Inr w1 \<Rightarrow> is_deleted w1 0) \<and>
   (case detectCollisions 0 (only_destructs 0) scene3 of
      Inl err \<Rightarrow> False
    | Inr w' \<Rightarrow>
        collisions (trace w') =
          [Collided 0 1, Collided 1 0, Collided 0 2, Collided 2 0, Collided 1 2, Collided 2 1])"
  by (simp add: scene_defs run_defs upt_rec collisions_def)

lemma both_ways_no_self: "a \<noteq> b \<Longrightarrow> Collided e e \<notin> set (both_ways a b)"
  by (auto simp: both_ways_def)

lemma index_pairs_distinct_entities:
  assumes "distinct xs" and "ij \<in> set (index_pairs (length xs))"
  shows "xs ! fst ij \<noteq> xs ! snd ij"
proof -
  from assms(2) have "fst ij < snd ij" and "snd ij < length xs"
    by (auto simp: set_index_pairs)
  with assms(1) show ?thesis by (simp add: nth_eq_iff_index_eq)
qed

text \<open>
  C6, as the code has it. Entity 1 deletes itself when its hitbox is told of the
  collision with entity 0. The hitboxes of entities 1 and 2 intersect, before and after
  the pass, but the pair (1, 2) gets no callback: the row of a deleted entity is skipped.
  And when one entity is in the collection twice (it was passed to \<open>addEntity\<close>
  twice), the pair of its two places is evaluated and the entity is paired with itself.
\<close>

theorem collision_callbacks_counterexample:
  "(case detectCollisions 0 (only_destructs 1) scene3 of
      Inl err \<Rightarrow> False
    | Inr w' \<Rightarrow>
        list_all (\<lambda>e. \<not> is_deleted scene3 e) (entities scene3) \<and>
        boxes_intersect (only_destructs 1) scene3 1 2 \<and>
        boxes_intersect (only_destructs 1) w' 1 2 \<and>
        collisions (trace w') = [Collided 0 1, Collided 1 0, Collided 0 2, Collided 2 0]) \<and>
   (case for_each [0, 0] (addEntity 1 no_hooks) one_built of
      Inl err \<Rightarrow> False
    | Inr w \<Rightarrow>
        (case detectCollisions 0 no_hooks w of
           Inl err \<Rightarrow> False
         | Inr w' \<Rightarrow>
             entities w = [0, 0] \<and> \<not> is_deleted w 0 \<and>
             collisions (trace w') = [Collided 0 0, Collided 0 0]))"
proof -
  have first: "(case detectCollisions 0 (only_destructs 1) scene3 of
      Inl err \<Rightarrow> False
    | Inr w' \<Rightarrow>
        list_all (\<lambda>e. \<not> is_deleted scene3 e) (entities scene3) \<and>
        boxes_intersect (only_destructs 1) scene3 1 2 \<and>
        boxes_intersect (only_destructs 1) w' 1 2 \<and>
        collisions (trace w') = [Collided 0 1, Collided 1 0, Collided 0 2, Collided 2 0])"
    by (simp add: scene_defs run_defs upt_rec collisions_def boxes_intersect_def)
  have second: "(case for_each [0, 0] (addEntity 1 no_hooks) one_built of
      Inl err \<Rightarrow> False
    | Inr w \<Rightarrow>
        (case detectCollisions 0 no_hooks w of
           Inl err \<Rightarrow> False
         | Inr w' \<Rightarrow>
             entities w = [0, 0] \<and> \<not> is_deleted w 0 \<and>
             collisions (trace w') = [Collided 0 0, Collided 0 0]))"
    by (simp add: one_built_def no_hooks_def aabb_def boxA_def run_defs numeral_eq_Suc upt_rec
        collisions_def)
  from first second show ?thesis by (rule conjI)
qed

text \<open>
  C6, amended. In every collision pass that returns, the calls of \<open>collidedWith\<close> are
  those of a selection of the index pairs \<open>i < j\<close> of the copied collection, taken in
  the order of the loops: each selected pair contributes exactly one call in each
  direction, the hitbox of \<open>i\<close> first, and the other pairs contribute none. A pair is
  selected if, when the loops reach it, neither entity is marked deleted and the
  hitboxes intersect. A pair is not selected if its first entity was marked deleted when
  the outer loop reached it, or its second entity is marked deleted when the pair is
  reached, or the hitboxes do not intersect then. No index pair occurs twice. When the
  collection holds no entity twice, the two entities of every pair differ and no call
  pairs an entity with itself.
\<close>

theorem collision_callbacks:
  assumes run: "detectCollisions n h w = Inr w'"
  shows "\<exists>sel.
           collisions (trace w') =
             collisions (trace w) @
             concat (map (\<lambda>ij. if sel ij
                                 then both_ways (entities w ! fst ij) (entities w ! snd ij) else [])
                       (index_pairs (length (entities w)))) \<and>
           (\<forall>ij \<in> set (index_pairs (length (entities w))).
              \<exists>r p. row_start n h w (fst ij) = Inr r \<and>
                    pair_start n h w (fst ij) (snd ij) = Inr p \<and>
                    (must_fire h p (entities w ! fst ij) (entities w ! snd ij) \<longrightarrow> sel ij) \<and>
                    (must_not_fire h r p (entities w ! fst ij) (entities w ! snd ij) \<longrightarrow> \<not> sel ij)) \<and>
           distinct (index_pairs (length (entities w))) \<and>
           set (index_pairs (length (entities w))) = {(i, j). i < j \<and> j < length (entities w)} \<and>
           (distinct (entities w) \<longrightarrow>
              (\<forall>ij \<in> set (index_pairs (length (entities w))).
                 entities w ! fst ij \<noteq> entities w ! snd ij) \<and>
              (\<forall>e. Collided e e \<notin>
                 set (concat (map (\<lambda>ij. if sel ij
                                 then both_ways (entities w ! fst ij) (entities w ! snd ij) else [])
                       (index_pairs (length (entities w)))))))"
proof -
  have sel: "\<exists>r p. row_start n h w (fst ij) = Inr r \<and>
                    pair_start n h w (fst ij) (snd ij) = Inr p \<and>
                    (must_fire h p (entities w ! fst ij) (entities w ! snd ij) \<longrightarrow> pair_fires n h w ij) \<and>
                    (must_not_fire h r p (entities w ! fst ij) (entities w ! snd ij) \<longrightarrow> \<not> pair_fires n h w ij)"
    if "ij \<in> set (index_pairs (length (entities w)))" for ij
  proof -
    from that have "fst ij < snd ij" "snd ij < length (entities w)"
      by (auto simp: set_index_pairs)
    from pair_states[OF run this] obtain r p where
      rs: "row_start n h w (fst ij) = Inr r" and ps: "pair_start n h w (fst ij) (snd ij) = Inr p"
      and mono: "is_deleted r (entities w ! fst ij) \<longrightarrow> is_deleted p (entities w ! fst ij)"
      by blast
    have "must_fire h p (entities w ! fst ij) (entities w ! snd ij) \<longrightarrow> pair_fires n h w ij"
      using rs ps mono by (auto simp: must_fire_def pair_fires_def)
    moreover have "must_not_fire h r p (entities w ! fst ij) (entities w ! snd ij) \<longrightarrow> \<not> pair_fires n h w ij"
      using rs ps by (auto simp: must_not_fire_def pair_fires_def)
    ultimately show ?thesis using rs ps by blast
  qed
  have differ: "entities w ! fst ij \<noteq> entities w ! snd ij"
    if "distinct (entities w)" and "ij \<in> set (index_pairs (length (entities w)))" for ij
    using that by (rule index_pairs_distinct_entities)
  have no_self: "Collided e e \<notin>
      set (concat (map (\<lambda>ij. if pair_fires n h w ij
                                 then both_ways (entities w ! fst ij) (entities w ! snd ij) else [])
                       (index_pairs (length (entities w)))))"
    if d: "distinct (entities w)" for e
  proof
    assume "Collided e e \<in>
      set (concat (map (\<lambda>ij. if pair_fires n h w ij
                                 then both_ways (entities w ! fst ij) (entities w ! snd ij) else [])
                       (index_pairs (length (entities w)))))"
    then obtain ij where ij: "ij \<in> set (index_pairs (length (entities w)))"
      and "Collided e e \<in> set (both_ways (entities w ! fst ij) (entities w ! snd ij))"
      by (auto split: if_splits)
    with both_ways_no_self[OF differ[OF d ij]] show False by simp
  qed
  from detectCollisions_collisions[OF run] sel differ no_self show ?thesis
    by (intro exI[of _ "pair_fires n h w"]) (simp add: distinct_index_pairs set_index_pairs)
qed

theorem collision_callbacks_witness:
  "\<not> isl (detectCollisions 0 no_hooks scene2) \<and>
   collisions (trace (projr (detectCollisions 0 no_hooks scene2))) =
     collisions (trace scene2) @ [Collided 0 1, Collided 1 0] \<and>
   index_pairs (length (entities scene2)) = [(0, 1)] \<and>
   distinct (entities scene2) \<and>
   entities scene2 ! 0 \<noteq> entities scene2 ! 1"
proof -
  let ?w' = "projr (detectCollisions 0 no_hooks scene2)"
  have ok: "\<not> isl (detectCollisions 0 no_hooks scene2)"
    by (simp add: scene_defs run_defs upt_rec)
  then have run: "detectCollisions 0 no_hooks scene2 = Inr ?w'"
    by (cases "detectCollisions 0 no_hooks scene2") simp_all
  have ip: "index_pairs (length (entities scene2)) = [(0, 1)]"
    by (simp add: index_pairs_def scene2_def upt_rec)
  have d: "distinct (entities scene2)" by (simp add: scene2_def)
  from collision_callbacks[OF run] obtain sel where
    eq: "collisions (trace ?w') = collisions (trace scene2) @
           concat (map (\<lambda>ij. if sel ij then both_ways (entities scene2 ! fst ij) (entities scene2 ! snd ij) else [])
             (index_pairs (length (entities scene2))))"
    and dec: "\<forall>ij \<in> set (index_pairs (length (entities scene2))).
              \<exists>r p. row_start 0 no_hooks scene2 (fst ij) = Inr r \<and>
                    pair_start 0 no_hooks scene2 (fst ij) (snd ij) = Inr p \<and>
                    (must_fire no_hooks p (entities scene2 ! fst ij) (entities scene2 ! snd ij) \<longrightarrow> sel ij) \<and>
                    (must_not_fire no_hooks r p (entities scene2 ! fst ij) (entities scene2 ! snd ij) \<longrightarrow> \<not> sel ij)"
    and no_self: "distinct (entities scene2) \<longrightarrow>
              (\<forall>ij \<in> set (index_pairs (length (entities scene2))).
                 entities scene2 ! fst ij \<noteq> entities scene2 ! snd ij)"
    by blast
  have rs: "row_start 0 no_hooks scene2 0 = Inr scene2" by (simp add: row_start_def)
  have ps: "pair_start 0 no_hooks scene2 0 1 = Inr scene2"
    by (simp add: pair_start_def rs)
  have mf: "must_fire no_hooks scene2 0 1"
    by (simp add: must_fire_def boxes_intersect_def scene_defs run_defs)
  from dec ip rs ps mf have "sel (0, 1)" by (auto simp: scene2_def)
  with eq ip have c: "collisions (trace ?w') = collisions (trace scene2) @ [Collided 0 1, Collided 1 0]"
    by (simp add: both_ways_def scene2_def)
  from no_self d ip have ne: "entities scene2 ! 0 \<noteq> entities scene2 ! 1" by simp
  from ok c ip d ne show ?thesis by blast
qed

end
